theory Spec2Isabelle
  imports Main "HOL-Library.Word"
begin

unbundle bit_operations_syntax

section \<open>Machine types, errors and the decoder's data\<close>

text \<open>
  The embedding follows \<^verbatim>\<open>LzmaDecoderCore.hpp\<close> and \<^verbatim>\<open>Lzma2Decoder.hpp\<close>.
  \<^verbatim>\<open>unsigned\<close>, \<^verbatim>\<open>UInt32\<close> and \<^verbatim>\<open>Prob\<close> are 32-bit words, \<^verbatim>\<open>Byte\<close> is an 8-bit word and
  \<^verbatim>\<open>std::size_t\<close> is a 64-bit word; all arithmetic wraps as the unsigned C++ arithmetic does.

  A C++ exception is a value: \<open>BadStream\<close> and \<open>InvalidArgument\<close> are the two exceptions the
  code throws. An access outside a buffer has no defined behaviour in C++; the model makes
  it a result of its own (\<open>InputOverrun\<close>: a read of the input at or past its end,
  \<open>DicReadOverrun\<close> and \<open>DicWriteOverrun\<close>: an access of the dictionary memory block outside
  it, \<open>TempBufOverrun\<close>: an access outside the 20 bytes of \<^verbatim>\<open>tempBuf\<close>). \<open>Diverged\<close> is the
  result of a loop that does not return.
\<close>

type_synonym u8 = "8 word"
type_synonym u32 = "32 word"
type_synonym usize = "64 word"

datatype error =
    BadStream
  | InvalidArgument
  | InputOverrun
  | DicReadOverrun
  | DicWriteOverrun
  | TempBufOverrun
  | Diverged

datatype FinishMode = Any | End

datatype Status =
    NotSpecified
  | FinishedWithMark
  | NotFinished
  | NeedsMoreInput
  | MaybeFinishedWithoutMark

record DictView =
  mem :: "u8 list"
  dsize :: usize
  pos :: usize

record Properties =
  lc :: u32
  lp :: u32
  pb :: u32
  dicSize :: u32

text \<open>
  The probability table \<^verbatim>\<open>m_probs\<close> is a store from indices to counters. The bounds of
  the table are not tracked: no claim is about them.
  \<^verbatim>\<open>buf\<close> is the index of the next byte in the buffer being read (the input slice, or
  \<^verbatim>\<open>tempBuf\<close>), which the functions take as an argument.
  \<^verbatim>\<open>tempBuf\<close> is the array of \<^verbatim>\<open>LZMA_REQUIRED_INPUT_MAX = 20\<close> bytes: only the indices below
  20 are its elements.

  \<open>norm_trace\<close> is not a member of the class. It is an auxiliary (history) variable that no
  function reads: it lists, latest first, the value of \<^verbatim>\<open>range\<close> right after each
  \<^verbatim>\<open>NORMALIZE\<close> of \<^verbatim>\<open>DecodeReal\<close> since the decoder was constructed, so that a property of
  every normalization step can be stated.
\<close>

record DecoderCore =
  m_dic :: DictView
  m_properties :: Properties
  m_probs :: "nat \<Rightarrow> u32"
  buf :: nat
  m_range :: u32
  m_code :: u32
  processedPos :: u32
  checkDicSize :: u32
  state :: u32
  reps0 :: u32
  reps1 :: u32
  reps2 :: u32
  reps3 :: u32
  remainLen :: u32
  needFlush :: bool
  needInitState :: bool
  tempBufSize :: u32
  tempBuf :: "nat \<Rightarrow> u8"
  norm_trace :: "u32 list"

subsection \<open>Constants of \<^verbatim>\<open>DecoderCore\<close>\<close>

definition kNumTopBits :: nat where "kNumTopBits = 24"
definition kTopValue :: u32 where "kTopValue = push_bit kNumTopBits 1"
definition kNumBitModelTotalBits :: nat where "kNumBitModelTotalBits = 11"
definition kBitModelTotal :: u32 where "kBitModelTotal = push_bit kNumBitModelTotalBits 1"
definition kNumMoveBits :: nat where "kNumMoveBits = 5"
definition kNumPosBitsMax :: nat where "kNumPosBitsMax = 4"
definition kNumPosStatesMax :: nat where "kNumPosStatesMax = 2 ^ kNumPosBitsMax"
definition kLenNumLowBits :: nat where "kLenNumLowBits = 3"
definition kLenNumLowSymbols :: nat where "kLenNumLowSymbols = 2 ^ kLenNumLowBits"
definition kLenNumMidBits :: nat where "kLenNumMidBits = 3"
definition kLenNumMidSymbols :: nat where "kLenNumMidSymbols = 2 ^ kLenNumMidBits"
definition kLenNumHighBits :: nat where "kLenNumHighBits = 8"
definition kLenNumHighSymbols :: nat where "kLenNumHighSymbols = 2 ^ kLenNumHighBits"

definition LenChoice :: nat where "LenChoice = 0"
definition LenChoice2 :: nat where "LenChoice2 = LenChoice + 1"
definition LenLow :: nat where "LenLow = LenChoice2 + 1"
definition LenMid :: nat where "LenMid = LenLow + kNumPosStatesMax * 2 ^ kLenNumLowBits"
definition LenHigh :: nat where "LenHigh = LenMid + kNumPosStatesMax * 2 ^ kLenNumMidBits"
definition kNumLenProbs :: nat where "kNumLenProbs = LenHigh + kLenNumHighSymbols"

definition kNumStates :: nat where "kNumStates = 12"
definition kNumLitStates :: nat where "kNumLitStates = 7"
definition kStartPosModelIndex :: nat where "kStartPosModelIndex = 4"
definition kEndPosModelIndex :: nat where "kEndPosModelIndex = 14"
definition kNumFullDistances :: nat where "kNumFullDistances = 2 ^ (kEndPosModelIndex div 2)"
definition kNumPosSlotBits :: nat where "kNumPosSlotBits = 6"
definition kNumLenToPosStates :: nat where "kNumLenToPosStates = 4"
definition kNumAlignBits :: nat where "kNumAlignBits = 4"
definition kAlignTableSize :: nat where "kAlignTableSize = 2 ^ kNumAlignBits"
definition kMatchMinLen :: nat where "kMatchMinLen = 2"
definition kMatchSpecLenStart :: nat where
  "kMatchSpecLenStart = kMatchMinLen + kLenNumLowSymbols + kLenNumMidSymbols + kLenNumHighSymbols"

definition IsMatch :: nat where "IsMatch = 0"
definition IsRep :: nat where "IsRep = IsMatch + kNumStates * 2 ^ kNumPosBitsMax"
definition IsRepG0 :: nat where "IsRepG0 = IsRep + kNumStates"
definition IsRepG1 :: nat where "IsRepG1 = IsRepG0 + kNumStates"
definition IsRepG2 :: nat where "IsRepG2 = IsRepG1 + kNumStates"
definition IsRep0Long :: nat where "IsRep0Long = IsRepG2 + kNumStates"
definition PosSlot :: nat where "PosSlot = IsRep0Long + kNumStates * 2 ^ kNumPosBitsMax"
definition SpecPos :: nat where "SpecPos = PosSlot + kNumLenToPosStates * 2 ^ kNumPosSlotBits"
definition Align :: nat where "Align = SpecPos + kNumFullDistances - kEndPosModelIndex"
definition LenCoder :: nat where "LenCoder = Align + kAlignTableSize"
definition RepLenCoder :: nat where "RepLenCoder = LenCoder + kNumLenProbs"
definition Literal :: nat where "Literal = RepLenCoder + kNumLenProbs"
definition LZMA_LIT_SIZE :: nat where "LZMA_LIT_SIZE = 768"
definition LZMA_REQUIRED_INPUT_MAX :: nat where "LZMA_REQUIRED_INPUT_MAX = 20"
definition RC_INIT_SIZE :: nat where "RC_INIT_SIZE = 5"

lemmas lzma_consts =
  kNumTopBits_def kTopValue_def kNumBitModelTotalBits_def kBitModelTotal_def kNumMoveBits_def
  kNumPosBitsMax_def kNumPosStatesMax_def kLenNumLowBits_def kLenNumLowSymbols_def
  kLenNumMidBits_def kLenNumMidSymbols_def kLenNumHighBits_def kLenNumHighSymbols_def
  LenChoice_def LenChoice2_def LenLow_def LenMid_def LenHigh_def kNumLenProbs_def
  kNumStates_def kNumLitStates_def kStartPosModelIndex_def kEndPosModelIndex_def
  kNumFullDistances_def kNumPosSlotBits_def kNumLenToPosStates_def kNumAlignBits_def
  kAlignTableSize_def kMatchMinLen_def kMatchSpecLenStart_def IsMatch_def IsRep_def
  IsRepG0_def IsRepG1_def IsRepG2_def IsRep0Long_def PosSlot_def SpecPos_def Align_def
  LenCoder_def RepLenCoder_def Literal_def LZMA_LIT_SIZE_def LZMA_REQUIRED_INPUT_MAX_def
  RC_INIT_SIZE_def

lemma Literal_is_LZMA_BASE_SIZE: "Literal = 1846"
  by (simp add: lzma_consts)

section \<open>The LZMA2 framer: \<^verbatim>\<open>Decoder2\<close>\<close>

datatype ELzma2State =
    LZMA2_STATE_CONTROL
  | LZMA2_STATE_UNPACK0
  | LZMA2_STATE_UNPACK1
  | LZMA2_STATE_PACK0
  | LZMA2_STATE_PACK1
  | LZMA2_STATE_PROP
  | LZMA2_STATE_DATA
  | LZMA2_STATE_DATA_CONT
  | LZMA2_STATE_FINISHED
  | LZMA2_STATE_ERROR

definition CONTROL_LZMA :: u32 where "CONTROL_LZMA = push_bit 7 1"
definition CONTROL_COPY_NO_RESET :: u32 where "CONTROL_COPY_NO_RESET = 2"
definition CONTROL_COPY_RESET_DIC :: u32 where "CONTROL_COPY_RESET_DIC = 1"
definition CONTROL_EOF :: u32 where "CONTROL_EOF = 0"
definition LC_PLUS_LP_MAX :: u32 where "LC_PLUS_LP_MAX = 4"

definition isThereProp :: "u32 \<Rightarrow> bool" where
  "isThereProp mode = (mode \<ge> 2)"

text \<open>
  \<^verbatim>\<open>(2ul | (prop & 1)) << (prop / 2 + 11)\<close>, computed in \<^verbatim>\<open>unsigned long\<close> (64 bits) and
  returned as \<^verbatim>\<open>unsigned\<close>.
\<close>

definition dicSizeFromProp :: "u32 \<Rightarrow> u32" where
  "dicSizeFromProp prop =
     ucast (push_bit (unat (prop div 2 + 11)) ((2 :: 64 word) OR ucast (prop AND 1)))"

record Decoder2 =
  decoder :: DecoderCore
  packSize :: usize
  unpackSize :: usize
  state2 :: ELzma2State
  control :: u32
  needInitDic :: bool
  needInitState2 :: bool
  needInitProp :: bool

text \<open>\<^verbatim>\<open>DecoderCore::InitDicAndState\<close>.\<close>

definition InitDicAndState :: "bool \<Rightarrow> bool \<Rightarrow> DecoderCore \<Rightarrow> DecoderCore" where
  "InitDicAndState initDic initState c =
     (let c1 = c\<lparr>needFlush := True, remainLen := 0, tempBufSize := 0\<rparr>;
          c2 = (if initDic
                then c1\<lparr>processedPos := 0, checkDicSize := 0, needInitState := True\<rparr>
                else c1)
      in if initState then c2\<lparr>needInitState := True\<rparr> else c2)"

text \<open>\<^verbatim>\<open>Decoder2::Reset\<close>.\<close>

definition Reset :: "Decoder2 \<Rightarrow> Decoder2" where
  "Reset d =
     (let d1 = d\<lparr>state2 := LZMA2_STATE_CONTROL, needInitDic := True,
                  needInitState2 := True, needInitProp := True\<rparr>;
          c1 = (decoder d1)\<lparr>m_dic := (m_dic (decoder d1))\<lparr>pos := 0\<rparr>\<rparr>
      in d1\<lparr>decoder := InitDicAndState True True c1\<rparr>)"

text \<open>
  The constructor \<^verbatim>\<open>Decoder2::Decoder2(unsigned prop)\<close>. The members the constructor does
  not set, and the counters of the freshly allocated probability array, are indeterminate
  in C++: they are the fields of the argument \<open>u\<close>. The auxiliary \<open>norm_trace\<close> starts empty.
\<close>

definition Decoder2_new :: "u32 \<Rightarrow> Decoder2 \<Rightarrow> error + Decoder2" where
  "Decoder2_new prop u =
     (if prop > 40 then Inl InvalidArgument
      else Inr (Reset (u\<lparr>decoder := (decoder u)\<lparr>m_properties :=
             \<lparr>lc = LC_PLUS_LP_MAX, lp = 0, pb = 0,
              dicSize = (if prop = 40 then 0xFFFFFFFF else dicSizeFromProp prop)\<rparr>,
             norm_trace := []\<rparr>\<rparr>)))"

definition isUncompressedState :: "Decoder2 \<Rightarrow> bool" where
  "isUncompressedState d = (control d AND CONTROL_LZMA = 0)"

definition getLzmaMode :: "Decoder2 \<Rightarrow> u32" where
  "getLzmaMode d = drop_bit 5 (control d) AND 3"

text \<open>
  \<^verbatim>\<open>Decoder2::UpdateState(unsigned b)\<close>: returns the next framer state; the fields it
  changes on the way are changed in the decoder it returns.
\<close>

definition UpdateState :: "u32 \<Rightarrow> Decoder2 \<Rightarrow> ELzma2State \<times> Decoder2" where
  "UpdateState b d =
     (case state2 d of
        LZMA2_STATE_CONTROL \<Rightarrow>
          (let d1 = d\<lparr>control := b\<rparr> in
           if control d1 = 0 then (LZMA2_STATE_FINISHED, d1)
           else if isUncompressedState d1 then
             (if control d1 AND 0x7F > 2 then (LZMA2_STATE_ERROR, d1)
              else (LZMA2_STATE_UNPACK0, d1\<lparr>unpackSize := 0\<rparr>))
           else (LZMA2_STATE_UNPACK0,
                 d1\<lparr>unpackSize := ucast (push_bit 16 (control d1 AND 0x1F))\<rparr>))
      | LZMA2_STATE_UNPACK0 \<Rightarrow>
          (LZMA2_STATE_UNPACK1, d\<lparr>unpackSize := unpackSize d OR ucast (push_bit 8 b)\<rparr>)
      | LZMA2_STATE_UNPACK1 \<Rightarrow>
          (let d1 = d\<lparr>unpackSize := (unpackSize d OR ucast b) + 1\<rparr> in
           (if isUncompressedState d1 then LZMA2_STATE_DATA else LZMA2_STATE_PACK0, d1))
      | LZMA2_STATE_PACK0 \<Rightarrow>
          (LZMA2_STATE_PACK1, d\<lparr>packSize := ucast (push_bit 8 b)\<rparr>)
      | LZMA2_STATE_PACK1 \<Rightarrow>
          (let d1 = d\<lparr>packSize := (packSize d OR ucast b) + 1\<rparr> in
           (if isThereProp (getLzmaMode d1) then LZMA2_STATE_PROP
            else if needInitProp d1 then LZMA2_STATE_ERROR else LZMA2_STATE_DATA, d1))
      | LZMA2_STATE_PROP \<Rightarrow>
          (if b \<ge> 9 * 5 * 5 then (LZMA2_STATE_ERROR, d)
           else
             let lc' = b mod 9;
                 b1 = b div 9;
                 d1 = d\<lparr>decoder := (decoder d)\<lparr>m_properties :=
                        (m_properties (decoder d))\<lparr>pb := b1 div 5\<rparr>\<rparr>\<rparr>;
                 lp' = b1 mod 5
             in if lc' + lp' > LC_PLUS_LP_MAX then (LZMA2_STATE_ERROR, d1)
                else (LZMA2_STATE_DATA,
                      d1\<lparr>decoder := (decoder d1)\<lparr>m_properties :=
                            (m_properties (decoder d1))\<lparr>lc := lc', lp := lp'\<rparr>\<rparr>,
                         needInitProp := False\<rparr>))
      | _ \<Rightarrow> (LZMA2_STATE_ERROR, d))"

section \<open>The symbol decoder: \<^verbatim>\<open>DecoderCore::DecodeReal\<close>\<close>

text \<open>
  A result is \<open>Inr\<close> of a value, or \<open>Inl\<close> of an error together with the state at the
  moment the error is raised: what the code has written to the probability table, to the
  dictionary and to the members of the decoder by then stays written when the exception
  leaves the call.
\<close>

definition bindR :: "'e + 'a \<Rightarrow> ('a \<Rightarrow> 'e + 'b) \<Rightarrow> 'e + 'b" where
  "bindR m f = (case m of Inl e \<Rightarrow> Inl e | Inr a \<Rightarrow> f a)"

lemma bindR_Inl [simp]: "bindR (Inl e) f = Inl e"
  by (simp add: bindR_def)

lemma bindR_Inr [simp]: "bindR (Inr a) f = f a"
  by (simp add: bindR_def)

text \<open>A loop that does not return has the result \<open>Diverged\<close>, with the state it started in.\<close>

definition run :: "'s \<Rightarrow> ((error \<times> 's) + 'a) option \<Rightarrow> (error \<times> 's) + 'a" where
  "run s r = (case r of None \<Rightarrow> Inl (Diverged, s) | Some x \<Rightarrow> x)"

lemma run_Some [simp]: "run s (Some x) = x"
  by (simp add: run_def)

text \<open>
  The local variables of \<^verbatim>\<open>DecodeReal\<close> that change (\<^verbatim>\<open>probs\<close> and \<^verbatim>\<open>dic\<close> stand for the
  memory they point to), and those that do not (\<open>env\<close>), with the buffer \<^verbatim>\<open>buf\<close> reads from.
  \<open>l_norm_trace\<close> is the auxiliary variable \<open>norm_trace\<close>.
\<close>

record locals =
  l_probs :: "nat \<Rightarrow> u32"
  l_state :: u32
  l_rep0 :: u32
  l_rep1 :: u32
  l_rep2 :: u32
  l_rep3 :: u32
  l_dic :: "u8 list"
  l_dicPos :: usize
  l_processedPos :: u32
  l_len :: u32
  l_buf :: nat
  l_range :: u32
  l_code :: u32
  l_bound :: u32
  l_ttt :: u32
  l_norm_trace :: "u32 list"

record env =
  e_inp :: "u8 list"
  e_limit :: usize
  e_bufLimit :: nat
  e_pbMask :: u32
  e_lpMask :: u32
  e_lc :: u32
  e_dicBufSize :: usize
  e_checkDicSize :: u32

type_synonym 'a res = "(error \<times> locals) + ('a \<times> locals)"

subsection \<open>The range decoder\<close>

definition NORMALIZE :: "u8 list \<Rightarrow> locals \<Rightarrow> (error \<times> locals) + locals" where
  "NORMALIZE inp L =
     (if l_range L < kTopValue then
        (if l_buf L < length inp
         then Inr (L\<lparr>l_range := push_bit 8 (l_range L),
                     l_code := push_bit 8 (l_code L) OR ucast (inp ! l_buf L),
                     l_buf := l_buf L + 1,
                     l_norm_trace := push_bit 8 (l_range L) # l_norm_trace L\<rparr>)
         else Inl (InputOverrun, L))
      else Inr (L\<lparr>l_norm_trace := l_range L # l_norm_trace L\<rparr>))"

definition isBit0 :: "nat \<Rightarrow> u8 list \<Rightarrow> locals \<Rightarrow> bool res" where
  "isBit0 x inp L =
     bindR (NORMALIZE inp (L\<lparr>l_ttt := l_probs L x\<rparr>))
       (\<lambda>L1. let L2 = L1\<lparr>l_bound := drop_bit kNumBitModelTotalBits (l_range L1) * l_ttt L1\<rparr>
             in Inr (l_code L2 < l_bound L2, L2))"

definition UPDATE_0 :: "nat \<Rightarrow> locals \<Rightarrow> locals" where
  "UPDATE_0 x L =
     L\<lparr>l_range := l_bound L,
       l_probs := (l_probs L)(x := l_ttt L + drop_bit kNumMoveBits (kBitModelTotal - l_ttt L))\<rparr>"

definition UPDATE_1 :: "nat \<Rightarrow> locals \<Rightarrow> locals" where
  "UPDATE_1 x L =
     L\<lparr>l_range := l_range L - l_bound L,
       l_code := l_code L - l_bound L,
       l_probs := (l_probs L)(x := l_ttt L - drop_bit kNumMoveBits (l_ttt L))\<rparr>"

text \<open>
  The macro \<^verbatim>\<open>LZMA_DECODER_DETAILS_GET_BIT2_(x, i, A0, A1)\<close>: the result is the decoded bit
  (so that the caller runs \<^verbatim>\<open>A0\<close> or \<^verbatim>\<open>A1\<close>) and the new \<^verbatim>\<open>i\<close>.
\<close>

definition GET_BIT2 :: "nat \<Rightarrow> u32 \<Rightarrow> u8 list \<Rightarrow> locals \<Rightarrow> (bool \<times> u32) res" where
  "GET_BIT2 x i inp L =
     bindR (isBit0 x inp L)
       (\<lambda>(b0, L1). if b0 then Inr ((False, i + i), UPDATE_0 x L1)
                   else Inr ((True, (i + i) + 1), UPDATE_1 x L1))"

definition GET_BIT :: "nat \<Rightarrow> u32 \<Rightarrow> u8 list \<Rightarrow> locals \<Rightarrow> u32 res" where
  "GET_BIT x i inp L = bindR (GET_BIT2 x i inp L) (\<lambda>((b, i'), L1). Inr (i', L1))"

text \<open>
  \<^verbatim>\<open>do { TREE_GET_BIT(probs, i); } while (i < limit);\<close> where \<^verbatim>\<open>TREE_GET_BIT(probs, i)\<close> is
  \<^verbatim>\<open>GET_BIT(probs + i, i)\<close>. The loop of a plain literal,
  \<^verbatim>\<open>do { GET_BIT(prob + symbol, symbol); } while (symbol < 0x100);\<close>, is the same loop.
\<close>

partial_function (option) tree_loop ::
  "nat \<Rightarrow> u32 \<Rightarrow> u32 \<Rightarrow> u8 list \<Rightarrow> locals \<Rightarrow> (u32 res) option" where
  "tree_loop probs lim i inp L =
     (case GET_BIT (probs + unat i) i inp L of
        Inl e \<Rightarrow> Some (Inl e)
      | Inr (i', L1) \<Rightarrow> if i' < lim then tree_loop probs lim i' inp L1 else Some (Inr (i', L1)))"

declare tree_loop.simps [code]

definition TREE_DECODE :: "nat \<Rightarrow> u32 \<Rightarrow> u8 list \<Rightarrow> locals \<Rightarrow> u32 res" where
  "TREE_DECODE probs lim inp L =
     bindR (run L (tree_loop probs lim 1 inp L)) (\<lambda>(i, L1). Inr (i - lim, L1))"

definition TREE_6_DECODE :: "nat \<Rightarrow> u8 list \<Rightarrow> locals \<Rightarrow> u32 res" where
  "TREE_6_DECODE probs inp L =
     bindR (GET_BIT (probs + unat (1 :: u32)) 1 inp L) (\<lambda>(i, L).
     bindR (GET_BIT (probs + unat i) i inp L) (\<lambda>(i, L).
     bindR (GET_BIT (probs + unat i) i inp L) (\<lambda>(i, L).
     bindR (GET_BIT (probs + unat i) i inp L) (\<lambda>(i, L).
     bindR (GET_BIT (probs + unat i) i inp L) (\<lambda>(i, L).
     bindR (GET_BIT (probs + unat i) i inp L) (\<lambda>(i, L).
     Inr (i - 0x40, L)))))))"

subsection \<open>Dictionary accesses\<close>

definition dic_read :: "usize \<Rightarrow> locals \<Rightarrow> u8 res" where
  "dic_read i L =
     (if unat i < length (l_dic L) then Inr (l_dic L ! unat i, L) else Inl (DicReadOverrun, L))"

definition dic_write :: "usize \<Rightarrow> u8 \<Rightarrow> locals \<Rightarrow> (error \<times> locals) + locals" where
  "dic_write i v L =
     (if unat i < length (l_dic L) then Inr (L\<lparr>l_dic := (l_dic L)[unat i := v]\<rparr>)
      else Inl (DicWriteOverrun, L))"

text \<open>\<^verbatim>\<open>(dicPos - rep0) + ((dicPos < rep0) ? dicBufSize : 0)\<close>, in \<^verbatim>\<open>size_t\<close>.\<close>

definition rep0_pos :: "env \<Rightarrow> locals \<Rightarrow> usize" where
  "rep0_pos E L =
     (l_dicPos L - ucast (l_rep0 L)) + (if l_dicPos L < ucast (l_rep0 L) then e_dicBufSize E else 0)"

subsection \<open>A literal\<close>

text \<open>
  The loop of a literal after a match: \<^verbatim>\<open>matchByte\<close>, \<^verbatim>\<open>offs\<close> and \<^verbatim>\<open>symbol\<close> change in it.
\<close>

partial_function (option) matched_lit_loop ::
  "nat \<Rightarrow> u32 \<Rightarrow> u32 \<Rightarrow> u32 \<Rightarrow> u8 list \<Rightarrow> locals \<Rightarrow> (u32 res) option" where
  "matched_lit_loop prob matchByte offs symbol inp L =
     (let matchByte1 = push_bit 1 matchByte;
          bit = matchByte1 AND offs;
          probLit = prob + unat offs + unat bit + unat symbol
      in case GET_BIT2 probLit symbol inp L of
           Inl e \<Rightarrow> Some (Inl e)
         | Inr ((b, symbol1), L1) \<Rightarrow>
             (let offs1 = (if b then offs AND bit else offs AND NOT bit)
              in if symbol1 < 0x100 then matched_lit_loop prob matchByte1 offs1 symbol1 inp L1
                 else Some (Inr (symbol1, L1))))"

declare matched_lit_loop.simps [code]

text \<open>
  The index of the literal's probabilities:
  \<^verbatim>\<open>probs + Literal\<close>, plus \<^verbatim>\<open>LZMA_LIT_SIZE * (((processedPos & lpMask) << lc) + (prevByte >> (8 - lc)))\<close>
  unless nothing has been decoded yet.
\<close>

definition lit_prob :: "env \<Rightarrow> locals \<Rightarrow> nat res" where
  "lit_prob E L =
     (if e_checkDicSize E \<noteq> 0 \<or> l_processedPos L \<noteq> 0 then
        bindR (dic_read ((if l_dicPos L = 0 then e_dicBufSize E else l_dicPos L) - 1) L)
          (\<lambda>(prevByte, L).
             Inr (Literal + unat ((of_nat LZMA_LIT_SIZE :: u32) *
                    (push_bit (unat (e_lc E)) (l_processedPos L AND e_lpMask E) +
                     drop_bit (unat (8 - e_lc E)) (ucast prevByte))), L))
      else Inr (Literal, L))"

text \<open>The branch of a literal, from after \<^verbatim>\<open>UPDATE_0(prob)\<close> to its \<^verbatim>\<open>continue\<close>.\<close>

definition decode_literal :: "env \<Rightarrow> locals \<Rightarrow> (error \<times> locals) + locals" where
  "decode_literal E L =
     bindR (lit_prob E L) (\<lambda>(prob, L).
     bindR (if l_state L < of_nat kNumLitStates then
              (let L1 = L\<lparr>l_state := l_state L - (if l_state L < 4 then l_state L else 3)\<rparr>
               in run L1 (tree_loop prob 0x100 1 (e_inp E) L1))
            else
              bindR (dic_read (rep0_pos E L) L) (\<lambda>(mb, L).
                let matchByte = (ucast mb :: u32);
                    L1 = L\<lparr>l_state := l_state L - (if l_state L < 10 then 3 else 6)\<rparr>
                in run L1 (matched_lit_loop prob matchByte 0x100 1 (e_inp E) L1)))
       (\<lambda>(symbol, L).
     bindR (dic_write (l_dicPos L) (ucast symbol) L) (\<lambda>L.
     Inr (L\<lparr>l_dicPos := l_dicPos L + 1, l_processedPos := l_processedPos L + 1\<rparr>))))"

subsection \<open>A match\<close>

text \<open>
  The branch \<^verbatim>\<open>IsRep = 1\<close>, from after \<^verbatim>\<open>UPDATE_1(prob)\<close>: the result is \<open>True\<close> at the
  \<^verbatim>\<open>continue\<close> of a short rep, and \<open>False\<close> where the code goes on to decode a length with
  \<^verbatim>\<open>prob = probs + RepLenCoder\<close>.
\<close>

definition decode_rep :: "env \<Rightarrow> u32 \<Rightarrow> locals \<Rightarrow> bool res" where
  "decode_rep E posState L =
     (if e_checkDicSize E = 0 \<and> l_processedPos L = 0 then Inl (BadStream, L)
      else
        bindR (isBit0 (IsRepG0 + unat (l_state L)) (e_inp E) L) (\<lambda>(b, L).
          if b then
            (let L = UPDATE_0 (IsRepG0 + unat (l_state L)) L;
                 prob = IsRep0Long + unat (push_bit kNumPosBitsMax (l_state L)) + unat posState
             in bindR (isBit0 prob (e_inp E) L) (\<lambda>(b, L).
                  if b then
                    (let L = UPDATE_0 prob L
                     in bindR (dic_read (rep0_pos E L) L) (\<lambda>(v, L).
                        bindR (dic_write (l_dicPos L) v L) (\<lambda>L.
                        Inr (True, L\<lparr>l_dicPos := l_dicPos L + 1,
                                      l_processedPos := l_processedPos L + 1,
                                      l_state := (if l_state L < of_nat kNumLitStates
                                                  then 9 else 11)\<rparr>))))
                  else
                    (let L = UPDATE_1 prob L
                     in Inr (False, L\<lparr>l_state := (if l_state L < of_nat kNumLitStates
                                                   then 8 else 11)\<rparr>))))
          else
            (let L = UPDATE_1 (IsRepG0 + unat (l_state L)) L
             in bindR (isBit0 (IsRepG1 + unat (l_state L)) (e_inp E) L) (\<lambda>(b, L).
                bindR (if b then
                         (let L = UPDATE_0 (IsRepG1 + unat (l_state L)) L
                          in Inr (l_rep1 L, L))
                       else
                         (let L = UPDATE_1 (IsRepG1 + unat (l_state L)) L
                          in bindR (isBit0 (IsRepG2 + unat (l_state L)) (e_inp E) L) (\<lambda>(b, L).
                               if b then
                                 (let L = UPDATE_0 (IsRepG2 + unat (l_state L)) L
                                  in Inr (l_rep2 L, L\<lparr>l_rep2 := l_rep1 L\<rparr>))
                               else
                                 (let L = UPDATE_1 (IsRepG2 + unat (l_state L)) L
                                  in Inr (l_rep3 L, L\<lparr>l_rep3 := l_rep2 L, l_rep2 := l_rep1 L\<rparr>)))))
                  (\<lambda>(distance, L).
                     Inr (False, L\<lparr>l_rep1 := l_rep0 L, l_rep0 := distance,
                                    l_state := (if l_state L < of_nat kNumLitStates
                                                then 8 else 11)\<rparr>))))))"

text \<open>The length of a match: \<^verbatim>\<open>len\<close> is set from the coder at \<open>prob\<close>.\<close>

definition decode_len :: "nat \<Rightarrow> u32 \<Rightarrow> u8 list \<Rightarrow> locals \<Rightarrow> (error \<times> locals) + locals" where
  "decode_len prob posState inp L =
     bindR (isBit0 (prob + LenChoice) inp L) (\<lambda>(b, L).
     bindR (if b then
              Inr ((prob + LenLow + unat (push_bit kLenNumLowBits posState), 0 :: u32,
                    push_bit kLenNumLowBits (1 :: u32)), UPDATE_0 (prob + LenChoice) L)
            else
              (let L = UPDATE_1 (prob + LenChoice) L
               in bindR (isBit0 (prob + LenChoice2) inp L) (\<lambda>(b, L).
                    if b then
                      Inr ((prob + LenMid + unat (push_bit kLenNumMidBits posState),
                            of_nat kLenNumLowSymbols, push_bit kLenNumMidBits 1),
                           UPDATE_0 (prob + LenChoice2) L)
                    else
                      Inr ((prob + LenHigh, of_nat (kLenNumLowSymbols + kLenNumMidSymbols),
                            push_bit kLenNumHighBits 1),
                           UPDATE_1 (prob + LenChoice2) L))))
       (\<lambda>((probLen, offset, lim), L).
     bindR (TREE_DECODE probLen lim inp L) (\<lambda>(len, L).
     Inr (L\<lparr>l_len := len + offset\<rparr>))))"

lemma unat_pred_less: "(n :: u32) \<noteq> 1 \<Longrightarrow> unat (n - 2) < unat (n - 1)"
proof -
  assume "n \<noteq> 1"
  then have m: "n - 1 \<noteq> 0" by simp
  then have pos: "unat (n - 1) \<noteq> 0" by (simp add: unat_eq_zero)
  have "n - 2 = (n - 1) - 1" by simp
  then have "unat (n - 2) = unat (n - 1) - 1" using unat_minus_one[OF m] by simp
  with pos show ?thesis by simp
qed

text \<open>
  \<^verbatim>\<open>do { GET_BIT2(prob + i, i, ; , distance |= mask); mask <<= 1; } while (--numDirectBits != 0);\<close>
  (\<open>msk\<close> is the variable \<^verbatim>\<open>mask\<close>).
\<close>

function spec_pos_loop ::
  "nat \<Rightarrow> u32 \<Rightarrow> u32 \<Rightarrow> u32 \<Rightarrow> u32 \<Rightarrow> u8 list \<Rightarrow> locals \<Rightarrow> u32 res" where
  "spec_pos_loop prob numDirectBits distance msk i inp L =
     (case GET_BIT2 (prob + unat i) i inp L of
        Inl e \<Rightarrow> Inl e
      | Inr ((b, i1), L1) \<Rightarrow>
          (let distance1 = (if b then distance OR msk else distance);
               msk1 = push_bit 1 msk;
               numDirectBits1 = numDirectBits - 1
           in if numDirectBits1 \<noteq> 0
              then spec_pos_loop prob numDirectBits1 distance1 msk1 i1 inp L1
              else Inr (distance1, L1)))"
  by pat_completeness auto
termination
  by (relation "measure (\<lambda>(prob, numDirectBits, distance, msk, i, inp, L). unat (numDirectBits - 1))")
     (auto simp: unat_pred_less)

declare spec_pos_loop.simps [simp del]

text \<open>The loop of the bits of a distance that have a fixed probability.\<close>

function direct_bits_loop :: "u32 \<Rightarrow> u32 \<Rightarrow> u8 list \<Rightarrow> locals \<Rightarrow> u32 res" where
  "direct_bits_loop numDirectBits distance inp L =
     (case NORMALIZE inp L of
        Inl e \<Rightarrow> Inl e
      | Inr L1 \<Rightarrow>
          (let L2 = L1\<lparr>l_range := drop_bit 1 (l_range L1)\<rparr>;
               L3 = L2\<lparr>l_code := l_code L2 - l_range L2\<rparr>;
               t = 0 - drop_bit 31 (l_code L3);
               distance1 = push_bit 1 distance + (t + 1);
               L4 = L3\<lparr>l_code := l_code L3 + (l_range L3 AND t)\<rparr>;
               numDirectBits1 = numDirectBits - 1
           in if numDirectBits1 \<noteq> 0 then direct_bits_loop numDirectBits1 distance1 inp L4
              else Inr (distance1, L4)))"
  by pat_completeness auto
termination
  by (relation "measure (\<lambda>(numDirectBits, distance, inp, L). unat (numDirectBits - 1))")
     (auto simp: unat_pred_less)

declare direct_bits_loop.simps [simp del]

text \<open>
  The distance of a simple match, up to the test for the end marker: \<open>None\<close> is the
  \<^verbatim>\<open>break\<close> at the end marker (\<^verbatim>\<open>distance == 0xFFFFFFFF\<close>), \<open>Some\<close> the decoded distance.
\<close>

definition decode_dist_value :: "env \<Rightarrow> locals \<Rightarrow> (u32 option) res" where
  "decode_dist_value E L =
     (let prob = PosSlot + unat (push_bit kNumPosSlotBits
                   (if l_len L < of_nat kNumLenToPosStates then l_len L
                    else of_nat kNumLenToPosStates - 1))
      in bindR (TREE_6_DECODE prob (e_inp E) L) (\<lambda>(distance, L).
           if distance \<ge> of_nat kStartPosModelIndex then
             (let posSlot = distance;
                  numDirectBits = drop_bit 1 distance - 1;
                  distance = 2 OR (distance AND 1)
              in if posSlot < of_nat kEndPosModelIndex then
                   (let distance = push_bit (unat numDirectBits) distance;
                        prob = SpecPos + unat distance - unat posSlot - 1
                    in bindR (spec_pos_loop prob numDirectBits distance 1 1 (e_inp E) L)
                         (\<lambda>(distance, L). Inr (Some distance, L)))
                 else
                   (let numDirectBits = numDirectBits - of_nat kNumAlignBits
                    in bindR (direct_bits_loop numDirectBits distance (e_inp E) L)
                         (\<lambda>(distance, L).
                       let prob = Align;
                           distance = push_bit kNumAlignBits distance
                       in bindR (GET_BIT2 (prob + unat (1 :: u32)) 1 (e_inp E) L) (\<lambda>((b, i), L).
                          let distance = (if b then distance OR 1 else distance)
                          in bindR (GET_BIT2 (prob + unat i) i (e_inp E) L) (\<lambda>((b, i), L).
                          let distance = (if b then distance OR 2 else distance)
                          in bindR (GET_BIT2 (prob + unat i) i (e_inp E) L) (\<lambda>((b, i), L).
                          let distance = (if b then distance OR 4 else distance)
                          in bindR (GET_BIT2 (prob + unat i) i (e_inp E) L) (\<lambda>((b, i), L).
                          let distance = (if b then distance OR 8 else distance)
                          in if distance = 0xFFFFFFFF then
                               Inr (None, L\<lparr>l_len := l_len L + of_nat kMatchSpecLenStart,
                                             l_state := l_state L - of_nat kNumStates\<rparr>)
                             else Inr (Some distance, L))))))))
           else Inr (Some distance, L)))"

text \<open>
  What follows the decoded distance: the reps move down, the distance is checked against
  the decoded part of the dictionary, and the state is set.
\<close>

definition check_distance :: "env \<Rightarrow> u32 \<Rightarrow> locals \<Rightarrow> (error \<times> locals) + locals" where
  "check_distance E distance L =
     (let L = L\<lparr>l_rep3 := l_rep2 L, l_rep2 := l_rep1 L, l_rep1 := l_rep0 L,
                 l_rep0 := distance + 1\<rparr>
      in if e_checkDicSize E = 0 \<and> distance \<ge> l_processedPos L then Inl (BadStream, L)
         else if e_checkDicSize E \<noteq> 0 \<and> distance \<ge> e_checkDicSize E then Inl (BadStream, L)
         else Inr (L\<lparr>l_state := (if l_state L < of_nat (kNumStates + kNumLitStates)
                                   then of_nat kNumLitStates else of_nat kNumLitStates + 3)\<rparr>))"

text \<open>The block \<^verbatim>\<open>if (state >= kNumStates) { ... }\<close>: \<open>True\<close> is its \<^verbatim>\<open>break\<close>.\<close>

definition decode_distance :: "env \<Rightarrow> locals \<Rightarrow> bool res" where
  "decode_distance E L =
     bindR (decode_dist_value E L) (\<lambda>(d, L).
       case d of
         None \<Rightarrow> Inr (True, L)
       | Some distance \<Rightarrow> bindR (check_distance E distance L) (\<lambda>L. Inr (False, L)))"

lemma unat_pred_less64: "(n :: usize) \<noteq> 1 \<Longrightarrow> unat (n - 2) < unat (n - 1)"
proof -
  assume "n \<noteq> 1"
  then have m: "n - 1 \<noteq> 0" by simp
  then have pos: "unat (n - 1) \<noteq> 0" by (simp add: unat_eq_zero)
  have "n - 2 = (n - 1) - 1" by simp
  then have "unat (n - 2) = unat (n - 1) - 1" using unat_minus_one[OF m] by simp
  with pos show ?thesis by simp
qed

text \<open>
  \<^verbatim>\<open>do { *(dest) = (Byte)*(dest + src); } while (++dest != lim);\<close> with the pointers
  \<^verbatim>\<open>dest\<close> and \<^verbatim>\<open>lim\<close> as indices into the dictionary.
\<close>

function copy_fwd_loop :: "usize \<Rightarrow> usize \<Rightarrow> usize \<Rightarrow> locals \<Rightarrow> (error \<times> locals) + locals" where
  "copy_fwd_loop dest lim src L =
     (case dic_read (dest + src) L of
        Inl e \<Rightarrow> Inl e
      | Inr (v, L1) \<Rightarrow>
          (case dic_write dest v L1 of
             Inl e \<Rightarrow> Inl e
           | Inr L2 \<Rightarrow> if dest + 1 \<noteq> lim then copy_fwd_loop (dest + 1) lim src L2 else Inr L2))"
  by pat_completeness auto
termination
proof (relation "measure (\<lambda>(dest, lim, src, L). unat (lim - dest - 1))", goal_cases)
  case 1
  show ?case by simp
next
  case (2 dest lim src L x v L1 L2)
  have "lim - dest \<noteq> 1" using 2 by (metis add.commute diff_add_cancel)
  from unat_pred_less64[OF this] show ?case
    by (simp add: algebra_simps)
qed

declare copy_fwd_loop.simps [simp del]

text \<open>
  \<^verbatim>\<open>do { dic[dicPos++] = dic[pos]; if (++pos == dicBufSize) pos = 0; } while (--curLen != 0);\<close>
  (\<open>p\<close> is the variable \<^verbatim>\<open>pos\<close>).
\<close>

function copy_wrap_loop :: "env \<Rightarrow> usize \<Rightarrow> u32 \<Rightarrow> locals \<Rightarrow> (error \<times> locals) + locals" where
  "copy_wrap_loop E p curLen L =
     (case dic_read p L of
        Inl e \<Rightarrow> Inl e
      | Inr (v, L1) \<Rightarrow>
          (case dic_write (l_dicPos L1) v L1 of
             Inl e \<Rightarrow> Inl e
           | Inr L2 \<Rightarrow>
               (let L3 = L2\<lparr>l_dicPos := l_dicPos L2 + 1\<rparr>;
                    p1 = (if p + 1 = e_dicBufSize E then 0 else p + 1)
                in if curLen - 1 \<noteq> 0 then copy_wrap_loop E p1 (curLen - 1) L3 else Inr L3)))"
  by pat_completeness auto
termination
  by (relation "measure (\<lambda>(E, p, curLen, L). unat (curLen - 1))")
     (auto simp: unat_pred_less)

declare copy_wrap_loop.simps [simp del]

text \<open>From \<^verbatim>\<open>len += kMatchMinLen\<close> to the end of the copy.\<close>

definition copy_match :: "env \<Rightarrow> locals \<Rightarrow> (error \<times> locals) + locals" where
  "copy_match E L =
     (let L = L\<lparr>l_len := l_len L + of_nat kMatchMinLen\<rparr>
      in if e_limit E = l_dicPos L then Inl (BadStream, L)
         else
           let rem = e_limit E - l_dicPos L;
               curLen = (if rem < ucast (l_len L) then (ucast rem :: u32) else l_len L);
               p = rep0_pos E L;
               L = L\<lparr>l_processedPos := l_processedPos L + curLen\<rparr>;
               L = L\<lparr>l_len := l_len L - curLen\<rparr>
           in if p + ucast curLen \<le> e_dicBufSize E then
                (let dest = l_dicPos L;
                     src = p - l_dicPos L;
                     lim = dest + ucast curLen;
                     L = L\<lparr>l_dicPos := l_dicPos L + ucast curLen\<rparr>
                 in copy_fwd_loop dest lim src L)
              else copy_wrap_loop E p curLen L)"

text \<open>
  A match from its length on, with \<open>prob\<close> the length coder (\<^verbatim>\<open>LenCoder\<close> or
  \<^verbatim>\<open>RepLenCoder\<close>): \<open>True\<close> is the \<^verbatim>\<open>break\<close> of the end marker.
\<close>

definition match_tail :: "env \<Rightarrow> nat \<Rightarrow> u32 \<Rightarrow> locals \<Rightarrow> bool res" where
  "match_tail E prob posState L =
     bindR (decode_len prob posState (e_inp E) L) (\<lambda>L.
     bindR (if l_state L \<ge> of_nat kNumStates then decode_distance E L else Inr (False, L))
       (\<lambda>(brk, L).
          if brk then Inr (True, L)
          else bindR (copy_match E L) (\<lambda>L. Inr (False, L))))"

text \<open>
  One pass through the body of the \<^verbatim>\<open>do ... while\<close> of \<^verbatim>\<open>DecodeReal\<close>, that is one LZMA
  symbol: \<open>True\<close> where the body leaves the loop by \<^verbatim>\<open>break\<close>, \<open>False\<close> where it reaches
  the loop's condition (at its end or by \<^verbatim>\<open>continue\<close>).
\<close>

definition decode_symbol :: "env \<Rightarrow> locals \<Rightarrow> bool res" where
  "decode_symbol E L =
     (let posState = l_processedPos L AND e_pbMask E;
          prob = IsMatch + unat (push_bit kNumPosBitsMax (l_state L)) + unat posState
      in bindR (isBit0 prob (e_inp E) L) (\<lambda>(b, L).
           if b then
             bindR (decode_literal E (UPDATE_0 prob L)) (\<lambda>L. Inr (False, L))
           else
             (let L = UPDATE_1 prob L;
                  prob = IsRep + unat (l_state L)
              in bindR (isBit0 prob (e_inp E) L) (\<lambda>(b, L).
                   if b then
                     (let L = UPDATE_0 prob L;
                          L = L\<lparr>l_state := l_state L + of_nat kNumStates\<rparr>
                      in match_tail E LenCoder posState L)
                   else
                     bindR (decode_rep E posState (UPDATE_1 prob L)) (\<lambda>(cont, L).
                       if cont then Inr (False, L)
                       else match_tail E RepLenCoder posState L)))))"

text \<open>
  The loop \<^verbatim>\<open>do { ... } while (dicPos < limit && buf < bufLimit);\<close> of \<^verbatim>\<open>DecodeReal\<close>.
\<close>

partial_function (option) DecodeReal_loop ::
  "env \<Rightarrow> locals \<Rightarrow> ((error \<times> locals) + locals) option" where
  "DecodeReal_loop E L =
     (case decode_symbol E L of
        Inl e \<Rightarrow> Some (Inl e)
      | Inr (brk, L1) \<Rightarrow>
          if \<not> brk \<and> l_dicPos L1 < e_limit E \<and> l_buf L1 < e_bufLimit E
          then DecodeReal_loop E L1
          else Some (Inr L1))"

declare DecodeReal_loop.simps [code]

text \<open>
  \<^verbatim>\<open>DecodeReal(limit, bufLimit)\<close>, reading from the buffer \<open>inp\<close> at the index \<^verbatim>\<open>this->buf\<close>.
  When an exception leaves it, the members of the decoder are as before the call; the
  probability table and the dictionary keep what has been written to them.
\<close>

definition locals_of :: "DecoderCore \<Rightarrow> locals" where
  "locals_of c =
     \<lparr>l_probs = m_probs c, l_state = state c,
      l_rep0 = reps0 c, l_rep1 = reps1 c, l_rep2 = reps2 c, l_rep3 = reps3 c,
      l_dic = mem (m_dic c), l_dicPos = pos (m_dic c),
      l_processedPos = processedPos c, l_len = 0, l_buf = buf c,
      l_range = m_range c, l_code = m_code c, l_bound = 0, l_ttt = 0,
      l_norm_trace = norm_trace c\<rparr>"

definition env_of :: "usize \<Rightarrow> nat \<Rightarrow> u8 list \<Rightarrow> DecoderCore \<Rightarrow> env" where
  "env_of limit bufLimit inp c =
     \<lparr>e_inp = inp, e_limit = limit, e_bufLimit = bufLimit,
      e_pbMask = push_bit (unat (pb (m_properties c))) 1 - 1,
      e_lpMask = push_bit (unat (lp (m_properties c))) 1 - 1,
      e_lc = lc (m_properties c),
      e_dicBufSize = dsize (m_dic c),
      e_checkDicSize = checkDicSize c\<rparr>"

definition thrown :: "DecoderCore \<Rightarrow> error \<times> locals \<Rightarrow> error \<times> DecoderCore" where
  "thrown c eL =
     (fst eL, c\<lparr>m_probs := l_probs (snd eL), m_dic := (m_dic c)\<lparr>mem := l_dic (snd eL)\<rparr>,
                norm_trace := l_norm_trace (snd eL)\<rparr>)"

definition DecodeReal ::
  "usize \<Rightarrow> nat \<Rightarrow> u8 list \<Rightarrow> DecoderCore \<Rightarrow> (error \<times> DecoderCore) + DecoderCore" where
  "DecodeReal limit bufLimit inp c =
     (let E = env_of limit bufLimit inp c;
          L = locals_of c
      in case bindR (run L (DecodeReal_loop E L)) (NORMALIZE inp) of
           Inl eL \<Rightarrow> Inl (thrown c eL)
         | Inr L \<Rightarrow>
             Inr (c\<lparr>buf := l_buf L, m_range := l_range L, m_code := l_code L,
                    remainLen := l_len L,
                    m_dic := (m_dic c)\<lparr>mem := l_dic L, pos := l_dicPos L\<rparr>,
                    processedPos := l_processedPos L,
                    reps0 := l_rep0 L, reps1 := l_rep1 L, reps2 := l_rep2 L, reps3 := l_rep3 L,
                    state := l_state L, m_probs := l_probs L,
                    norm_trace := l_norm_trace L\<rparr>))"

section \<open>The streaming layer of \<^verbatim>\<open>DecoderCore\<close>\<close>

subsection \<open>\<^verbatim>\<open>WriteRem\<close>, \<^verbatim>\<open>DecodeReal2\<close> and the initialisations\<close>

lemma unat_pred_less_self: "(n :: u32) \<noteq> 0 \<Longrightarrow> unat (n - 1) < unat n"
proof -
  assume n: "n \<noteq> 0"
  then have "unat n \<noteq> 0" by (simp add: unat_eq_zero)
  with unat_minus_one[OF n] show ?thesis by simp
qed

text \<open>
  \<^verbatim>\<open>while (len-- != 0) { dic[dicPos] = dic[(dicPos - rep0) + ((dicPos < rep0) ? dicBufSize : 0)]; dicPos++; }\<close>
  on the dictionary memory \<open>m\<close>.
\<close>

function WriteRem_loop ::
  "u32 \<Rightarrow> usize \<Rightarrow> u32 \<Rightarrow> usize \<Rightarrow> u8 list \<Rightarrow> (error \<times> u8 list) + (usize \<times> u8 list)" where
  "WriteRem_loop rep0 dicBufSize len dicPos m =
     (if len \<noteq> 0 then
        (let src = (dicPos - ucast rep0) + (if dicPos < ucast rep0 then dicBufSize else 0)
         in if \<not> unat src < length m then Inl (DicReadOverrun, m)
            else if \<not> unat dicPos < length m then Inl (DicWriteOverrun, m)
            else WriteRem_loop rep0 dicBufSize (len - 1) (dicPos + 1) (m[unat dicPos := m ! unat src]))
      else Inr (dicPos, m))"
  by pat_completeness auto
termination
  by (relation "measure (\<lambda>(rep0, dicBufSize, len, dicPos, m). unat len)")
     (auto simp: unat_pred_less_self)

declare WriteRem_loop.simps [simp del]

definition WriteRem :: "usize \<Rightarrow> DecoderCore \<Rightarrow> (error \<times> DecoderCore) + DecoderCore" where
  "WriteRem limit c =
     (if remainLen c \<noteq> 0 \<and> remainLen c < of_nat kMatchSpecLenStart then
        (let dicPos = pos (m_dic c);
             dicBufSize = dsize (m_dic c);
             len = remainLen c;
             rep0 = reps0 c;
             len = (if limit - dicPos < ucast len then (ucast (limit - dicPos) :: u32) else len);
             c = (if checkDicSize c = 0 \<and> dicSize (m_properties c) - processedPos c \<le> len
                  then c\<lparr>checkDicSize := dicSize (m_properties c)\<rparr> else c);
             c = c\<lparr>processedPos := processedPos c + len\<rparr>;
             c = c\<lparr>remainLen := remainLen c - len\<rparr>
         in case WriteRem_loop rep0 dicBufSize len dicPos (mem (m_dic c)) of
              Inl (e, m) \<Rightarrow> Inl (e, c\<lparr>m_dic := (m_dic c)\<lparr>mem := m\<rparr>\<rparr>)
            | Inr (dicPos, m) \<Rightarrow> Inr (c\<lparr>m_dic := (m_dic c)\<lparr>mem := m, pos := dicPos\<rparr>\<rparr>))
      else Inr c)"

text \<open>The body of the \<^verbatim>\<open>do ... while\<close> of \<^verbatim>\<open>DecodeReal2\<close>, and the loop.\<close>

definition DecodeReal2_body ::
  "usize \<Rightarrow> nat \<Rightarrow> u8 list \<Rightarrow> DecoderCore \<Rightarrow> (error \<times> DecoderCore) + DecoderCore" where
  "DecodeReal2_body limit bufLimit inp c =
     (let limit2 =
            (if checkDicSize c = 0 then
               (let rem = dicSize (m_properties c) - processedPos c
                in if limit - pos (m_dic c) > ucast rem then pos (m_dic c) + ucast rem else limit)
             else limit)
      in bindR (DecodeReal limit2 bufLimit inp c) (\<lambda>c.
           WriteRem limit
             (if processedPos c \<ge> dicSize (m_properties c)
              then c\<lparr>checkDicSize := dicSize (m_properties c)\<rparr> else c)))"

partial_function (option) DecodeReal2_loop ::
  "usize \<Rightarrow> nat \<Rightarrow> u8 list \<Rightarrow> DecoderCore \<Rightarrow> ((error \<times> DecoderCore) + DecoderCore) option" where
  "DecodeReal2_loop limit bufLimit inp c =
     (case DecodeReal2_body limit bufLimit inp c of
        Inl e \<Rightarrow> Some (Inl e)
      | Inr c1 \<Rightarrow>
          if pos (m_dic c1) < limit \<and> buf c1 < bufLimit \<and> remainLen c1 < of_nat kMatchSpecLenStart
          then DecodeReal2_loop limit bufLimit inp c1
          else Some (Inr c1))"

declare DecodeReal2_loop.simps [code]

definition DecodeReal2 ::
  "usize \<Rightarrow> nat \<Rightarrow> u8 list \<Rightarrow> DecoderCore \<Rightarrow> (error \<times> DecoderCore) + DecoderCore" where
  "DecodeReal2 limit bufLimit inp c =
     bindR (run c (DecodeReal2_loop limit bufLimit inp c)) (\<lambda>c.
       Inr (if remainLen c > of_nat kMatchSpecLenStart
            then c\<lparr>remainLen := of_nat kMatchSpecLenStart\<rparr> else c))"

definition InitStateReal :: "DecoderCore \<Rightarrow> DecoderCore" where
  "InitStateReal c =
     (let numProbs = (of_nat Literal :: u32) +
            push_bit (unat (lc (m_properties c) + lp (m_properties c))) (of_nat LZMA_LIT_SIZE)
      in c\<lparr>m_probs := (\<lambda>i. if i < unat numProbs then drop_bit 1 kBitModelTotal else m_probs c i),
            reps0 := 1, reps1 := 1, reps2 := 1, reps3 := 1,
            state := 0, needInitState := False\<rparr>)"

text \<open>\<^verbatim>\<open>InitRc(data)\<close> with \<^verbatim>\<open>data\<close> the array \<^verbatim>\<open>tempBuf\<close>, as in its one call.\<close>

definition InitRc :: "DecoderCore \<Rightarrow> DecoderCore" where
  "InitRc c =
     c\<lparr>m_code := push_bit 24 (ucast (tempBuf c 1)) OR push_bit 16 (ucast (tempBuf c 2)) OR
                  push_bit 8 (ucast (tempBuf c 3)) OR ucast (tempBuf c 4),
       m_range := 0xFFFFFFFF,
       needFlush := False\<rparr>"

text \<open>
  \<^verbatim>\<open>UpdateWithUncompressed(src, size)\<close>: \<open>src\<close> is the memory from the pointer on, of which
  \<^verbatim>\<open>size\<close> bytes are copied to the dictionary at \<^verbatim>\<open>m_dic.pos\<close>.
\<close>

definition UpdateWithUncompressed ::
  "u8 list \<Rightarrow> usize \<Rightarrow> DecoderCore \<Rightarrow> (error \<times> DecoderCore) + DecoderCore" where
  "UpdateWithUncompressed src sz c =
     (if \<not> unat sz \<le> length src then Inl (InputOverrun, c)
      else if \<not> unat (pos (m_dic c)) + unat sz \<le> length (mem (m_dic c))
      then Inl (DicWriteOverrun, c)
      else
        let p = unat (pos (m_dic c));
            m = mem (m_dic c);
            c = c\<lparr>m_dic := (m_dic c)\<lparr>mem := take p m @ take (unat sz) src @ drop (p + unat sz) m,
                                     pos := pos (m_dic c) + sz\<rparr>\<rparr>;
            c = (if checkDicSize c = 0 \<and>
                    ucast (dicSize (m_properties c) - processedPos c) \<le> sz
                 then c\<lparr>checkDicSize := dicSize (m_properties c)\<rparr> else c)
        in Inr (c\<lparr>processedPos := processedPos c + ucast sz\<rparr>))"

subsection \<open>\<^verbatim>\<open>TryDummy\<close>\<close>

text \<open>
  \<^verbatim>\<open>TryDummy\<close> changes nothing in the decoder: it works on its own copies of \<^verbatim>\<open>range\<close>,
  \<^verbatim>\<open>code\<close> and \<^verbatim>\<open>buf\<close>. In the functions of this subsection \<open>Inl (Inr d)\<close> is the statement
  \<^verbatim>\<open>return d\<close> and \<open>Inl (Inl e)\<close> an access outside a buffer.
\<close>

datatype Dummy = DUMMY_ERROR | DUMMY_LIT | DUMMY_MATCH | DUMMY_REP

record dummy_locals =
  t_range :: u32
  t_code :: u32
  t_buf :: nat
  t_bound :: u32

type_synonym 'a dres = "(error + Dummy) + ('a \<times> dummy_locals)"

definition run_d :: "((error + Dummy) + 'a) option \<Rightarrow> (error + Dummy) + 'a" where
  "run_d r = (case r of None \<Rightarrow> Inl (Inl Diverged) | Some x \<Rightarrow> x)"

text \<open>\<^verbatim>\<open>if (!NORMALIZE_CHECK()) return DUMMY_ERROR;\<close>\<close>

definition NORMALIZE_CHECK ::
  "u8 list \<Rightarrow> nat \<Rightarrow> dummy_locals \<Rightarrow> (error + Dummy) + dummy_locals" where
  "NORMALIZE_CHECK inp bufLimit T =
     (if t_range T < kTopValue then
        (if t_buf T \<ge> bufLimit then Inl (Inr DUMMY_ERROR)
         else if \<not> t_buf T < length inp then Inl (Inl InputOverrun)
         else Inr (T\<lparr>t_range := push_bit 8 (t_range T),
                     t_code := push_bit 8 (t_code T) OR ucast (inp ! t_buf T),
                     t_buf := t_buf T + 1\<rparr>))
      else Inr T)"

definition bit0Check :: "u32 \<Rightarrow> dummy_locals \<Rightarrow> bool \<times> dummy_locals" where
  "bit0Check ttt T =
     (let T1 = T\<lparr>t_bound := drop_bit kNumBitModelTotalBits (t_range T) * ttt\<rparr>
      in (t_code T1 < t_bound T1, T1))"

definition UPDATE_0_CHECK :: "dummy_locals \<Rightarrow> dummy_locals" where
  "UPDATE_0_CHECK T = T\<lparr>t_range := t_bound T\<rparr>"

definition UPDATE_1_CHECK :: "dummy_locals \<Rightarrow> dummy_locals" where
  "UPDATE_1_CHECK T = T\<lparr>t_range := t_range T - t_bound T, t_code := t_code T - t_bound T\<rparr>"

text \<open>
  \<^verbatim>\<open>NORMALIZE_CHECK\<close> and then \<^verbatim>\<open>bit0Check(x)\<close> with the update of its outcome: the result
  is \<open>True\<close> where \<^verbatim>\<open>bit0Check\<close> holds (the bit 0).
\<close>

definition bit_check :: "u32 \<Rightarrow> u8 list \<Rightarrow> nat \<Rightarrow> dummy_locals \<Rightarrow> bool dres" where
  "bit_check ttt inp bufLimit T =
     bindR (NORMALIZE_CHECK inp bufLimit T) (\<lambda>T.
       case bit0Check ttt T of
         (b0, T1) \<Rightarrow> Inr (b0, if b0 then UPDATE_0_CHECK T1 else UPDATE_1_CHECK T1))"

text \<open>
  \<^verbatim>\<open>do { if (!NORMALIZE_CHECK()) return DUMMY_ERROR; GET_BIT_CHECK(probs + i, i); } while (i < limit);\<close>
\<close>

partial_function (option) tree_check_loop ::
  "(nat \<Rightarrow> u32) \<Rightarrow> nat \<Rightarrow> u32 \<Rightarrow> u32 \<Rightarrow> u8 list \<Rightarrow> nat \<Rightarrow> dummy_locals \<Rightarrow> (u32 dres) option" where
  "tree_check_loop P prob lim i inp bufLimit T =
     (case bit_check (P (prob + unat i)) inp bufLimit T of
        Inl r \<Rightarrow> Some (Inl r)
      | Inr (b0, T1) \<Rightarrow>
          (let i1 = (if b0 then i + i else (i + i) + 1)
           in if i1 < lim then tree_check_loop P prob lim i1 inp bufLimit T1
              else Some (Inr (i1, T1))))"

declare tree_check_loop.simps [code]

definition TREE_DECODE_CHECK ::
  "(nat \<Rightarrow> u32) \<Rightarrow> nat \<Rightarrow> u32 \<Rightarrow> u8 list \<Rightarrow> nat \<Rightarrow> dummy_locals \<Rightarrow> u32 dres" where
  "TREE_DECODE_CHECK P prob lim inp bufLimit T =
     bindR (run_d (tree_check_loop P prob lim 1 inp bufLimit T)) (\<lambda>(i, T). Inr (i - lim, T))"

partial_function (option) matched_lit_check_loop ::
  "(nat \<Rightarrow> u32) \<Rightarrow> nat \<Rightarrow> u32 \<Rightarrow> u32 \<Rightarrow> u32 \<Rightarrow> u8 list \<Rightarrow> nat \<Rightarrow> dummy_locals
     \<Rightarrow> (u32 dres) option" where
  "matched_lit_check_loop P prob matchByte offs symbol inp bufLimit T =
     (let matchByte1 = push_bit 1 matchByte;
          bit = matchByte1 AND offs;
          probLit = prob + unat offs + unat bit + unat symbol
      in case bit_check (P probLit) inp bufLimit T of
           Inl r \<Rightarrow> Some (Inl r)
         | Inr (b0, T1) \<Rightarrow>
             (let symbol1 = (if b0 then symbol + symbol else (symbol + symbol) + 1);
                  offs1 = (if b0 then offs AND NOT bit else offs AND bit)
              in if symbol1 < 0x100
                 then matched_lit_check_loop P prob matchByte1 offs1 symbol1 inp bufLimit T1
                 else Some (Inr (symbol1, T1))))"

declare matched_lit_check_loop.simps [code]

text \<open>
  \<^verbatim>\<open>do { if (!NORMALIZE_CHECK()) return DUMMY_ERROR; range >>= 1;
  code -= range & (((code - range) >> 31) - 1); } while (--numDirectBits != 0);\<close>
\<close>

function direct_bits_check_loop ::
  "u32 \<Rightarrow> u8 list \<Rightarrow> nat \<Rightarrow> dummy_locals \<Rightarrow> (error + Dummy) + dummy_locals" where
  "direct_bits_check_loop numDirectBits inp bufLimit T =
     (case NORMALIZE_CHECK inp bufLimit T of
        Inl r \<Rightarrow> Inl r
      | Inr T1 \<Rightarrow>
          (let T2 = T1\<lparr>t_range := drop_bit 1 (t_range T1)\<rparr>;
               T3 = T2\<lparr>t_code := t_code T2 -
                        (t_range T2 AND (drop_bit 31 (t_code T2 - t_range T2) - 1))\<rparr>
           in if numDirectBits - 1 \<noteq> 0
              then direct_bits_check_loop (numDirectBits - 1) inp bufLimit T3
              else Inr T3))"
  by pat_completeness auto
termination
  by (relation "measure (\<lambda>(numDirectBits, inp, bufLimit, T). unat (numDirectBits - 1))")
     (auto simp: unat_pred_less)

declare direct_bits_check_loop.simps [simp del]

text \<open>
  \<^verbatim>\<open>do { if (!NORMALIZE_CHECK()) return DUMMY_ERROR; GET_BIT_CHECK(prob + i, i); } while (--numDirectBits != 0);\<close>
\<close>

function rev_bits_check_loop ::
  "(nat \<Rightarrow> u32) \<Rightarrow> nat \<Rightarrow> u32 \<Rightarrow> u32 \<Rightarrow> u8 list \<Rightarrow> nat \<Rightarrow> dummy_locals
     \<Rightarrow> (error + Dummy) + dummy_locals" where
  "rev_bits_check_loop P prob numDirectBits i inp bufLimit T =
     (case bit_check (P (prob + unat i)) inp bufLimit T of
        Inl r \<Rightarrow> Inl r
      | Inr (b0, T1) \<Rightarrow>
          (let i1 = (if b0 then i + i else (i + i) + 1)
           in if numDirectBits - 1 \<noteq> 0
              then rev_bits_check_loop P prob (numDirectBits - 1) i1 inp bufLimit T1
              else Inr T1))"
  by pat_completeness auto
termination
  by (relation "measure (\<lambda>(P, prob, numDirectBits, i, inp, bufLimit, T). unat (numDirectBits - 1))")
     (auto simp: unat_pred_less)

declare rev_bits_check_loop.simps [simp del]

text \<open>The literal of \<^verbatim>\<open>TryDummy\<close>, from after \<^verbatim>\<open>UPDATE_0_CHECK\<close> to \<^verbatim>\<open>res = DUMMY_LIT\<close>.\<close>

definition dummy_literal ::
  "u8 list \<Rightarrow> nat \<Rightarrow> DecoderCore \<Rightarrow> dummy_locals \<Rightarrow> (error + Dummy) + dummy_locals" where
  "dummy_literal inp bufLimit c T =
     (let m = mem (m_dic c);
          dpos = pos (m_dic c)
      in bindR
           (if checkDicSize c \<noteq> 0 \<or> processedPos c \<noteq> 0 then
              (let j = (if dpos = 0 then dsize (m_dic c) else dpos) - 1
               in if \<not> unat j < length m then Inl (Inl DicReadOverrun)
                  else Inr (Literal + unat ((of_nat LZMA_LIT_SIZE :: u32) *
                         (push_bit (unat (lc (m_properties c)))
                            (processedPos c AND (push_bit (unat (lp (m_properties c))) 1 - 1)) +
                          drop_bit (unat (8 - lc (m_properties c))) (ucast (m ! unat j))))))
            else Inr Literal)
           (\<lambda>prob.
              if state c < of_nat kNumLitStates then
                bindR (run_d (tree_check_loop (m_probs c) prob 0x100 1 inp bufLimit T))
                  (\<lambda>(symbol, T). Inr T)
              else
                (let j = (dpos - ucast (reps0 c)) +
                         (if dpos < ucast (reps0 c) then dsize (m_dic c) else 0)
                 in if \<not> unat j < length m then Inl (Inl DicReadOverrun)
                    else bindR (run_d (matched_lit_check_loop (m_probs c) prob
                                         (ucast (m ! unat j)) 0x100 1 inp bufLimit T))
                           (\<lambda>(symbol, T). Inr T))))"

text \<open>
  The length and, for a simple match (\<^verbatim>\<open>state < 4\<close>), the distance: the common end of the
  match and rep branches of \<^verbatim>\<open>TryDummy\<close>. \<open>st\<close> is the local \<^verbatim>\<open>state\<close>.
\<close>

definition dummy_len_dist ::
  "nat \<Rightarrow> u32 \<Rightarrow> u32 \<Rightarrow> u8 list \<Rightarrow> nat \<Rightarrow> DecoderCore \<Rightarrow> dummy_locals
     \<Rightarrow> (error + Dummy) + dummy_locals" where
  "dummy_len_dist prob st posState inp bufLimit c T =
     (let P = m_probs c
      in bindR (bit_check (P (prob + LenChoice)) inp bufLimit T) (\<lambda>(b0, T).
         bindR (if b0 then
                  Inr ((prob + LenLow + unat (push_bit kLenNumLowBits posState), 0 :: u32,
                        push_bit kLenNumLowBits (1 :: u32)), T)
                else
                  bindR (bit_check (P (prob + LenChoice2)) inp bufLimit T) (\<lambda>(b0, T).
                    if b0 then
                      Inr ((prob + LenMid + unat (push_bit kLenNumMidBits posState),
                            of_nat kLenNumLowSymbols, push_bit kLenNumMidBits 1), T)
                    else
                      Inr ((prob + LenHigh, of_nat (kLenNumLowSymbols + kLenNumMidSymbols),
                            push_bit kLenNumHighBits 1), T)))
           (\<lambda>((probLen, offset, lim), T).
         bindR (TREE_DECODE_CHECK P probLen lim inp bufLimit T) (\<lambda>(len, T).
         let len = len + offset
         in if st < 4 then
              (let prob = PosSlot + unat (push_bit kNumPosSlotBits
                            (if len < of_nat kNumLenToPosStates then len
                             else of_nat kNumLenToPosStates - 1))
               in bindR (TREE_DECODE_CHECK P prob (push_bit kNumPosSlotBits 1) inp bufLimit T)
                    (\<lambda>(posSlot, T).
                       if posSlot \<ge> of_nat kStartPosModelIndex then
                         (let numDirectBits = drop_bit 1 posSlot - 1
                          in bindR
                               (if posSlot < of_nat kEndPosModelIndex then
                                  Inr ((SpecPos +
                                        unat (push_bit (unat numDirectBits) (2 OR (posSlot AND 1))) -
                                        unat posSlot - 1, numDirectBits), T)
                                else
                                  bindR (direct_bits_check_loop
                                           (numDirectBits - of_nat kNumAlignBits) inp bufLimit T)
                                    (\<lambda>T. Inr ((Align, of_nat kNumAlignBits), T)))
                               (\<lambda>((prob, numDirectBits), T).
                                  rev_bits_check_loop P prob numDirectBits 1 inp bufLimit T))
                       else Inr T))
            else Inr T))))"

definition TryDummy :: "u8 list \<Rightarrow> usize \<Rightarrow> DecoderCore \<Rightarrow> error + Dummy" where
  "TryDummy inp inSize c =
     (let T = \<lparr>t_range = m_range c, t_code = m_code c, t_buf = 0, t_bound = 0\<rparr>;
          bufLimit = unat inSize;
          P = m_probs c;
          st = state c;
          posState = processedPos c AND (push_bit (unat (pb (m_properties c))) 1 - 1);
          prob = IsMatch + unat (push_bit kNumPosBitsMax st) + unat posState
      in case
           bindR (bit_check (P prob) inp bufLimit T) (\<lambda>(b0, T).
             if b0 then
               bindR (dummy_literal inp bufLimit c T) (\<lambda>T. Inr (DUMMY_LIT, T))
             else
               bindR (bit_check (P (IsRep + unat st)) inp bufLimit T) (\<lambda>(b0, T).
                 if b0 then
                   bindR (dummy_len_dist LenCoder 0 posState inp bufLimit c T)
                     (\<lambda>T. Inr (DUMMY_MATCH, T))
                 else
                   bindR (bit_check (P (IsRepG0 + unat st)) inp bufLimit T) (\<lambda>(b0, T).
                   bindR
                     (if b0 then
                        bindR (bit_check (P (IsRep0Long + unat (push_bit kNumPosBitsMax st)
                                              + unat posState)) inp bufLimit T) (\<lambda>(b0, T).
                          if b0 then
                            bindR (NORMALIZE_CHECK inp bufLimit T) (\<lambda>T. Inl (Inr DUMMY_REP))
                          else Inr T)
                      else
                        bindR (bit_check (P (IsRepG1 + unat st)) inp bufLimit T) (\<lambda>(b0, T).
                          if b0 then Inr T
                          else bindR (bit_check (P (IsRepG2 + unat st)) inp bufLimit T)
                                 (\<lambda>(b0, T). Inr T)))
                     (\<lambda>T.
                        bindR (dummy_len_dist RepLenCoder (of_nat kNumStates) posState
                                 inp bufLimit c T)
                          (\<lambda>T. Inr (DUMMY_REP, T))))))
         of
           Inl (Inl e) \<Rightarrow> Inl e
         | Inl (Inr d) \<Rightarrow> Inr d
         | Inr (res, T) \<Rightarrow>
             (case NORMALIZE_CHECK inp bufLimit T of
                Inl (Inl e) \<Rightarrow> Inl e
              | Inl (Inr d) \<Rightarrow> Inr d
              | Inr T \<Rightarrow> Inr res))"

subsection \<open>\<^verbatim>\<open>DecoderCore::DecodeToDic\<close>\<close>

text \<open>
  The input of \<^verbatim>\<open>DecodeToDic\<close> is the memory \<open>src\<close> from the pointer \<^verbatim>\<open>src\<close> on and the
  number \<^verbatim>\<open>inSize\<close> of bytes the caller offers (the value of \<^verbatim>\<open>srcLen\<close> at the call). The
  pointer \<^verbatim>\<open>srcBytes\<close> is always \<^verbatim>\<open>src + srcLen\<close>, so the model keeps \<^verbatim>\<open>srcLen\<close> only.
  The values of the out-parameters \<^verbatim>\<open>srcLen\<close> and \<^verbatim>\<open>status\<close> at a \<^verbatim>\<open>throw\<close> are not part of
  the result.

  \<^verbatim>\<open>for (; inSize > 0 && tempBufSize < RC_INIT_SIZE; srcLen++, inSize--)
  tempBuf[tempBufSize++] = *srcBytes++;\<close>
\<close>

lemma unat_pred_less_self64: "(n :: usize) \<noteq> 0 \<Longrightarrow> unat (n - 1) < unat n"
proof -
  assume n: "n \<noteq> 0"
  then have "unat n \<noteq> 0" by (simp add: unat_eq_zero)
  with unat_minus_one[OF n] show ?thesis by simp
qed

function fill_init ::
  "u8 list \<Rightarrow> usize \<Rightarrow> usize \<Rightarrow> DecoderCore
     \<Rightarrow> (error \<times> DecoderCore) + (usize \<times> usize \<times> DecoderCore)" where
  "fill_init src srcLen inSize c =
     (if inSize > 0 \<and> tempBufSize c < of_nat RC_INIT_SIZE then
        (if \<not> unat srcLen < length src then Inl (InputOverrun, c)
         else fill_init src (srcLen + 1) (inSize - 1)
                (c\<lparr>tempBuf := (tempBuf c)(unat (tempBufSize c) := src ! unat srcLen),
                   tempBufSize := tempBufSize c + 1\<rparr>))
      else Inr (srcLen, inSize, c))"
  by pat_completeness auto
termination
  by (relation "measure (\<lambda>(src, srcLen, inSize, c). unat inSize)")
     (auto simp: unat_pred_less_self64 word_greater_zero_iff)

declare fill_init.simps [simp del]

text \<open>
  \<^verbatim>\<open>while (rem < LZMA_REQUIRED_INPUT_MAX && lookAhead < inSize) tempBuf[rem++] = srcBytes[lookAhead++];\<close>
  The result is \<^verbatim>\<open>rem\<close>, \<^verbatim>\<open>lookAhead\<close> and the array.
\<close>

function fill_temp ::
  "u8 list \<Rightarrow> usize \<Rightarrow> usize \<Rightarrow> u32 \<Rightarrow> u32 \<Rightarrow> (nat \<Rightarrow> u8)
     \<Rightarrow> error + (u32 \<times> u32 \<times> (nat \<Rightarrow> u8))" where
  "fill_temp src srcLen inSize rem lookAhead tb =
     (if rem < of_nat LZMA_REQUIRED_INPUT_MAX \<and> ucast lookAhead < inSize then
        (if \<not> unat srcLen + unat lookAhead < length src then Inl InputOverrun
         else fill_temp src srcLen inSize (rem + 1) (lookAhead + 1)
                (tb(unat rem := src ! (unat srcLen + unat lookAhead))))
      else Inr (rem, lookAhead, tb))"
  by pat_completeness auto
termination
  by (relation "measure (\<lambda>(src, srcLen, inSize, rem, lookAhead, tb). 20 - unat rem)")
     (auto simp: LZMA_REQUIRED_INPUT_MAX_def word_less_nat_alt unat_word_ariths)

declare fill_temp.simps [simp del]

text \<open>
  One pass through the body of \<^verbatim>\<open>while (this->remainLen != kMatchSpecLenStart)\<close>. The result
  is \<open>Some status\<close> where the body returns from \<^verbatim>\<open>DecodeToDic\<close>, and \<open>None\<close> where it reaches
  the end of the body; with it come \<^verbatim>\<open>srcLen\<close>, \<^verbatim>\<open>inSize\<close> and the decoder.
\<close>

definition tempBuf_list :: "DecoderCore \<Rightarrow> u8 list" where
  "tempBuf_list c = map (tempBuf c) [0..<LZMA_REQUIRED_INPUT_MAX]"

definition DecodeToDic_data ::
  "usize \<Rightarrow> u8 list \<Rightarrow> bool \<Rightarrow> usize \<Rightarrow> usize \<Rightarrow> DecoderCore
     \<Rightarrow> (error \<times> DecoderCore) + (Status option \<times> usize \<times> usize \<times> DecoderCore)" where
  "DecodeToDic_data dicLimit src checkEndMarkNow srcLen inSize c =
     (if tempBufSize c = 0 then
        (let inp = drop (unat srcLen) src
         in bindR
              (if inSize < of_nat LZMA_REQUIRED_INPUT_MAX \<or> checkEndMarkNow then
                 (case TryDummy inp inSize c of
                    Inl e \<Rightarrow> Inl (e, c)
                  | Inr dummyRes \<Rightarrow>
                      if dummyRes = DUMMY_ERROR then
                        (if \<not> unat inSize \<le> LZMA_REQUIRED_INPUT_MAX then Inl (TempBufOverrun, c)
                         else if \<not> unat inSize \<le> length inp then Inl (InputOverrun, c)
                         else Inr (Inl (Some NeedsMoreInput, srcLen + inSize, inSize,
                                c\<lparr>tempBuf := (\<lambda>i. if i < unat inSize then inp ! i else tempBuf c i),
                                   tempBufSize := ucast inSize\<rparr>)))
                      else if checkEndMarkNow \<and> dummyRes \<noteq> DUMMY_MATCH then Inl (BadStream, c)
                      else Inr (Inr (0 :: nat)))
               else Inr (Inr (unat (inSize - of_nat LZMA_REQUIRED_INPUT_MAX))))
              (\<lambda>r. case r of
                 Inl ret \<Rightarrow> Inr ret
               | Inr bufLimit \<Rightarrow>
                   bindR (DecodeReal2 dicLimit bufLimit inp (c\<lparr>buf := 0\<rparr>)) (\<lambda>c.
                     let processed = (of_nat (buf c) :: usize)
                     in Inr (None, srcLen + processed, inSize - processed, c))))
      else
        (case fill_temp src srcLen inSize (tempBufSize c) 0 (tempBuf c) of
           Inl e \<Rightarrow> Inl (e, c)
         | Inr (rem, lookAhead, tb) \<Rightarrow>
             (let c = c\<lparr>tempBuf := tb, tempBufSize := rem\<rparr>
              in bindR
                   (if rem < of_nat LZMA_REQUIRED_INPUT_MAX \<or> checkEndMarkNow then
                      (case TryDummy (tempBuf_list c) (ucast rem) c of
                         Inl e \<Rightarrow> Inl (e, c)
                       | Inr dummyRes \<Rightarrow>
                           if dummyRes = DUMMY_ERROR then
                             Inr (Some (Some NeedsMoreInput, srcLen + ucast lookAhead, inSize, c))
                           else if checkEndMarkNow \<and> dummyRes \<noteq> DUMMY_MATCH
                           then Inl (BadStream, c)
                           else Inr None)
                    else Inr None)
                   (\<lambda>r. case r of
                      Some ret \<Rightarrow> Inr ret
                    | None \<Rightarrow>
                        bindR (DecodeReal2 dicLimit 0 (tempBuf_list c) (c\<lparr>buf := 0\<rparr>)) (\<lambda>c.
                          let lookAhead = lookAhead - (rem - of_nat (buf c))
                          in Inr (None, srcLen + ucast lookAhead, inSize - ucast lookAhead,
                                  c\<lparr>tempBufSize := 0\<rparr>))))))"

definition DecodeToDic_body ::
  "usize \<Rightarrow> u8 list \<Rightarrow> FinishMode \<Rightarrow> usize \<Rightarrow> usize \<Rightarrow> DecoderCore
     \<Rightarrow> (error \<times> DecoderCore) + (Status option \<times> usize \<times> usize \<times> DecoderCore)" where
  "DecodeToDic_body dicLimit src finishMode srcLen inSize c =
     bindR
       (if needFlush c then
          bindR (fill_init src srcLen inSize c) (\<lambda>(srcLen, inSize, c).
            if tempBufSize c < of_nat RC_INIT_SIZE
            then Inr (Some NeedsMoreInput, srcLen, inSize, c)
            else if tempBuf c 0 \<noteq> 0 then Inl (BadStream, c)
            else Inr (None, srcLen, inSize, (InitRc c)\<lparr>tempBufSize := 0\<rparr>))
        else Inr (None, srcLen, inSize, c))
       (\<lambda>(ret, srcLen, inSize, c).
          if ret \<noteq> None then Inr (ret, srcLen, inSize, c)
          else
            bindR
              (if pos (m_dic c) \<ge> dicLimit then
                 (if remainLen c = 0 \<and> m_code c = 0
                  then Inr (Inl MaybeFinishedWithoutMark)
                  else if finishMode = Any then Inr (Inl NotFinished)
                  else if remainLen c \<noteq> 0 then Inl (BadStream, c)
                  else Inr (Inr True))
               else Inr (Inr False))
              (\<lambda>r. case r of
                 Inl st \<Rightarrow> Inr (Some st, srcLen, inSize, c)
               | Inr checkEndMarkNow \<Rightarrow>
                   DecodeToDic_data dicLimit src checkEndMarkNow srcLen inSize
                     (if needInitState c then InitStateReal c else c)))"

partial_function (option) DecodeToDic_loop ::
  "usize \<Rightarrow> u8 list \<Rightarrow> FinishMode \<Rightarrow> usize \<Rightarrow> usize \<Rightarrow> DecoderCore
     \<Rightarrow> ((error \<times> DecoderCore) + ((usize \<times> Status) \<times> DecoderCore)) option" where
  "DecodeToDic_loop dicLimit src finishMode srcLen inSize c =
     (if remainLen c \<noteq> of_nat kMatchSpecLenStart then
        (case DecodeToDic_body dicLimit src finishMode srcLen inSize c of
           Inl e \<Rightarrow> Some (Inl e)
         | Inr (ret, srcLen1, inSize1, c1) \<Rightarrow>
             (case ret of
                Some st \<Rightarrow> Some (Inr ((srcLen1, st), c1))
              | None \<Rightarrow> DecodeToDic_loop dicLimit src finishMode srcLen1 inSize1 c1))
      else if m_code c = 0 then Some (Inr ((srcLen, FinishedWithMark), c))
      else Some (Inl (BadStream, c)))"

declare DecodeToDic_loop.simps [code]

text \<open>
  \<^verbatim>\<open>DecoderCore::DecodeToDic(dicLimit, src, srcLen, finishMode, status)\<close>: the result holds
  the new \<^verbatim>\<open>srcLen\<close> and the \<^verbatim>\<open>status\<close>.
\<close>

definition DecodeToDic ::
  "usize \<Rightarrow> u8 list \<Rightarrow> usize \<Rightarrow> FinishMode \<Rightarrow> DecoderCore
     \<Rightarrow> (error \<times> DecoderCore) + ((usize \<times> Status) \<times> DecoderCore)" where
  "DecodeToDic dicLimit src inSize finishMode c =
     bindR (WriteRem dicLimit c) (\<lambda>c.
       run c (DecodeToDic_loop dicLimit src finishMode 0 inSize c))"

section \<open>\<^verbatim>\<open>Decoder2::DecodeToDic\<close> and the one-call interface\<close>

text \<open>
  One pass through the body of \<^verbatim>\<open>while (this->state != LZMA2_STATE_FINISHED)\<close>: \<open>Some status\<close>
  where the body returns, \<open>None\<close> where the loop goes on (at the end of the body or by
  \<^verbatim>\<open>continue\<close>); with it come \<^verbatim>\<open>srcLen\<close> and the decoder.
\<close>

definition Decoder2_uncompressed ::
  "usize \<Rightarrow> u8 list \<Rightarrow> usize \<Rightarrow> usize \<Rightarrow> usize \<Rightarrow> usize \<Rightarrow> Decoder2
     \<Rightarrow> (error \<times> Decoder2) + (Status option \<times> usize \<times> Decoder2)" where
  "Decoder2_uncompressed dicLimit src inSize srcLen destSizeCur srcSizeCur d =
     (if srcLen = inSize then Inr (Some NeedsMoreInput, srcLen, d)
      else
        bindR
          (if state2 d = LZMA2_STATE_DATA then
             (let initDic = (control d = CONTROL_COPY_RESET_DIC)
              in if \<not> initDic \<and> needInitDic d then Inl (BadStream, d)
                 else
                   let d = (if initDic then d\<lparr>needInitProp := True, needInitState2 := True\<rparr>
                            else d);
                       d = d\<lparr>needInitDic := False\<rparr>
                   in Inr (d\<lparr>decoder := InitDicAndState initDic False (decoder d)\<rparr>))
           else Inr d)
          (\<lambda>d.
             let srcSizeCur = (if srcSizeCur > destSizeCur then destSizeCur else srcSizeCur)
             in if srcSizeCur = 0 then Inl (BadStream, d)
                else
                  (case UpdateWithUncompressed (drop (unat srcLen) src) srcSizeCur (decoder d) of
                     Inl (e, c) \<Rightarrow> Inl (e, d\<lparr>decoder := c\<rparr>)
                   | Inr c \<Rightarrow>
                       (let d = d\<lparr>decoder := c, unpackSize := unpackSize d - srcSizeCur\<rparr>
                        in Inr (None, srcLen + srcSizeCur,
                                d\<lparr>state2 := (if unpackSize d = 0 then LZMA2_STATE_CONTROL
                                              else LZMA2_STATE_DATA_CONT)\<rparr>)))))"

definition Decoder2_compressed ::
  "u8 list \<Rightarrow> usize \<Rightarrow> usize \<Rightarrow> usize \<Rightarrow> usize \<Rightarrow> FinishMode \<Rightarrow> Decoder2
     \<Rightarrow> (error \<times> Decoder2) + (Status option \<times> usize \<times> Decoder2)" where
  "Decoder2_compressed src srcLen dicPos destSizeCur srcSizeCur curFinishMode d =
     bindR
       (if state2 d = LZMA2_STATE_DATA then
          (let mode = getLzmaMode d;
               initDic = (mode = 3);
               initState = (mode > 0)
           in if (\<not> initDic \<and> needInitDic d) \<or> (\<not> initState \<and> needInitState2 d)
              then Inl (BadStream, d)
              else Inr (d\<lparr>decoder := InitDicAndState initDic initState (decoder d),
                          needInitDic := False, needInitState2 := False,
                          state2 := LZMA2_STATE_DATA_CONT\<rparr>))
        else Inr d)
       (\<lambda>d.
          let srcSizeCur = (if srcSizeCur > packSize d then packSize d else srcSizeCur)
          in case DecodeToDic (dicPos + destSizeCur) (drop (unat srcLen) src) srcSizeCur
                    curFinishMode (decoder d) of
               Inl (e, c) \<Rightarrow> Inl (e, d\<lparr>decoder := c\<rparr>)
             | Inr ((srcSizeCur, status), c) \<Rightarrow>
                 (let d = d\<lparr>decoder := c\<rparr>;
                      srcLen = srcLen + srcSizeCur;
                      d = d\<lparr>packSize := packSize d - srcSizeCur\<rparr>;
                      outSizeProcessed = pos (m_dic (decoder d)) - dicPos;
                      d = d\<lparr>unpackSize := unpackSize d - outSizeProcessed\<rparr>
                  in if status = NeedsMoreInput then Inr (Some NeedsMoreInput, srcLen, d)
                     else if srcSizeCur = 0 \<and> outSizeProcessed = 0 then
                       (if status \<noteq> MaybeFinishedWithoutMark \<or> unpackSize d \<noteq> 0 \<or> packSize d \<noteq> 0
                        then Inl (BadStream, d)
                        else Inr (None, srcLen, d\<lparr>state2 := LZMA2_STATE_CONTROL\<rparr>))
                     else Inr (None, srcLen, d)))"

definition Decoder2_body ::
  "usize \<Rightarrow> u8 list \<Rightarrow> usize \<Rightarrow> FinishMode \<Rightarrow> usize \<Rightarrow> Decoder2
     \<Rightarrow> (error \<times> Decoder2) + (Status option \<times> usize \<times> Decoder2)" where
  "Decoder2_body dicLimit src inSize finishMode srcLen d =
     (let dicPos = pos (m_dic (decoder d))
      in if state2 d = LZMA2_STATE_ERROR then Inl (BadStream, d)
         else if dicPos = dicLimit \<and> finishMode = Any then Inr (Some NotFinished, srcLen, d)
         else if state2 d \<noteq> LZMA2_STATE_DATA \<and> state2 d \<noteq> LZMA2_STATE_DATA_CONT then
           (if srcLen = inSize then Inr (Some NeedsMoreInput, srcLen, d)
            else if \<not> unat srcLen < length src then Inl (InputOverrun, d)
            else
              (case UpdateState (ucast (src ! unat srcLen)) d of
                 (st, d1) \<Rightarrow> Inr (None, srcLen + 1, d1\<lparr>state2 := st\<rparr>)))
         else
           (let destSizeCur = dicLimit - dicPos;
                srcSizeCur = inSize - srcLen;
                curFinishMode = (if unpackSize d \<le> destSizeCur then End else Any);
                destSizeCur = (if unpackSize d \<le> destSizeCur then unpackSize d else destSizeCur)
            in if isUncompressedState d
               then Decoder2_uncompressed dicLimit src inSize srcLen destSizeCur srcSizeCur d
               else Decoder2_compressed src srcLen dicPos destSizeCur srcSizeCur curFinishMode d))"

partial_function (option) Decoder2_loop ::
  "usize \<Rightarrow> u8 list \<Rightarrow> usize \<Rightarrow> FinishMode \<Rightarrow> usize \<Rightarrow> Decoder2
     \<Rightarrow> ((error \<times> Decoder2) + ((usize \<times> Status) \<times> Decoder2)) option" where
  "Decoder2_loop dicLimit src inSize finishMode srcLen d =
     (if state2 d \<noteq> LZMA2_STATE_FINISHED then
        (case Decoder2_body dicLimit src inSize finishMode srcLen d of
           Inl e \<Rightarrow> Some (Inl e)
         | Inr (ret, srcLen1, d1) \<Rightarrow>
             (case ret of
                Some st \<Rightarrow> Some (Inr ((srcLen1, st), d1))
              | None \<Rightarrow> Decoder2_loop dicLimit src inSize finishMode srcLen1 d1))
      else Some (Inr ((srcLen, FinishedWithMark), d)))"

declare Decoder2_loop.simps [code]

text \<open>
  \<^verbatim>\<open>Decoder2::DecodeToDic(dicLimit, src, srcLen, finishMode, status)\<close>: \<open>src\<close> is the memory
  from the pointer on and \<open>inSize\<close> the value of \<^verbatim>\<open>srcLen\<close> at the call; the result holds the
  new \<^verbatim>\<open>srcLen\<close> and the \<^verbatim>\<open>status\<close>.
\<close>

definition Decoder2_DecodeToDic ::
  "usize \<Rightarrow> u8 list \<Rightarrow> usize \<Rightarrow> FinishMode \<Rightarrow> Decoder2
     \<Rightarrow> (error \<times> Decoder2) + ((usize \<times> Status) \<times> Decoder2)" where
  "Decoder2_DecodeToDic dicLimit src inSize finishMode d =
     run d (Decoder2_loop dicLimit src inSize finishMode 0 d)"

text \<open>
  \<^verbatim>\<open>Lzma2Decode(dest, destLen, src, srcLen, prop, finishMode, status)\<close>: \<open>dest\<close> is the
  destination buffer and \<open>outSize\<close> the value of \<^verbatim>\<open>destLen\<close> at the call, \<open>src\<close> and \<open>inSize\<close>
  the same for the source. The result is the returned \<^verbatim>\<open>bool\<close>, the new \<^verbatim>\<open>destLen\<close> and
  \<^verbatim>\<open>srcLen\<close>, the \<^verbatim>\<open>status\<close> and the destination buffer; \<open>u\<close> stands for the members of
  the local decoder that its constructor does not set.
\<close>

definition Lzma2Decode ::
  "u8 list \<Rightarrow> usize \<Rightarrow> u8 list \<Rightarrow> usize \<Rightarrow> u32 \<Rightarrow> FinishMode \<Rightarrow> Decoder2
     \<Rightarrow> error + (bool \<times> usize \<times> usize \<times> Status \<times> u8 list)" where
  "Lzma2Decode dest outSize src inSize prop finishMode u =
     (case Decoder2_new prop u of
        Inl e \<Rightarrow> Inl e
      | Inr d \<Rightarrow>
          (let d = d\<lparr>decoder := (decoder d)\<lparr>m_dic := (m_dic (decoder d))\<lparr>mem := dest, dsize := outSize\<rparr>\<rparr>\<rparr>
           in case Decoder2_DecodeToDic outSize src inSize finishMode d of
                Inl (e, d) \<Rightarrow> Inl e
              | Inr ((srcLen, status), d) \<Rightarrow>
                  Inr (status \<noteq> NeedsMoreInput, pos (m_dic (decoder d)), srcLen, status,
                       mem (m_dic (decoder d)))))"

section \<open>Concrete decoders for the examples\<close>

definition zeroCore :: DecoderCore where
  "zeroCore = \<lparr>m_dic = \<lparr>mem = [], dsize = 0, pos = 0\<rparr>,
     m_properties = \<lparr>lc = 0, lp = 0, pb = 0, dicSize = 0\<rparr>,
     m_probs = (\<lambda>_. 0), buf = 0, m_range = 0, m_code = 0, processedPos = 0,
     checkDicSize = 0, state = 0, reps0 = 0, reps1 = 0, reps2 = 0, reps3 = 0,
     remainLen = 0, needFlush = False, needInitState = False, tempBufSize = 0,
     tempBuf = (\<lambda>_. 0), norm_trace = []\<rparr>"

definition test_input :: "u8 list" where
  "test_input = [1, 0, 7, 0x74, 0x65, 0x73, 0x74, 0x5F, 0x73, 0x74, 0x72, 0]"

definition test_str :: "u8 list" where
  "test_str = [0x74, 0x65, 0x73, 0x74, 0x5F, 0x73, 0x74, 0x72]"

definition zeroDecoder2 :: Decoder2 where
  "zeroDecoder2 = \<lparr>decoder = zeroCore, packSize = 0, unpackSize = 0,
     state2 = LZMA2_STATE_CONTROL, control = 0, needInitDic = False,
     needInitState2 = False, needInitProp = False\<rparr>"


text \<open>
  A decoder for the property byte \<open>0x18\<close> right after its construction, with a dictionary
  window of 16 bytes as \<^verbatim>\<open>Lzma2Decode\<close> would set it.
\<close>

definition fresh_decoder :: Decoder2 where
  "fresh_decoder =
     (case Decoder2_new 0x18 zeroDecoder2 of
        Inr d \<Rightarrow> d\<lparr>decoder := (decoder d)\<lparr>m_dic := \<lparr>mem = replicate 16 0, dsize = 16, pos = 0\<rparr>\<rparr>\<rparr>
      | Inl e \<Rightarrow> zeroDecoder2)"

text \<open>
  Local variables of \<^verbatim>\<open>DecodeReal\<close> for the examples: every probability at its initial
  value 1024, the range decoder as \<^verbatim>\<open>InitRc\<close> leaves it on four zero bytes, one byte
  decoded so far (\<open>0x41\<close>) into a dictionary window of four bytes, and the state 10 (the
  state after a match that followed a match).
\<close>

definition sample_locals :: locals where
  "sample_locals =
     \<lparr>l_probs = (\<lambda>_. 1024), l_state = 10, l_rep0 = 1, l_rep1 = 1, l_rep2 = 1, l_rep3 = 1,
      l_dic = [0x41, 0, 0, 0], l_dicPos = 1, l_processedPos = 1, l_len = 0, l_buf = 0,
      l_range = 0xFFFFFFFF, l_code = 0, l_bound = 0, l_ttt = 0, l_norm_trace = []\<rparr>"

definition sample_env :: env where
  "sample_env =
     \<lparr>e_inp = [0, 0, 0, 0], e_limit = 4, e_bufLimit = 0, e_pbMask = 0, e_lpMask = 0,
      e_lc = 0, e_dicBufSize = 4, e_checkDicSize = 0\<rparr>"

text \<open>
  A decoder core with a dictionary size of 4096 in which nothing has been decoded, and the
  local variables of \<^verbatim>\<open>DecodeReal\<close> at its first symbol when the four bytes after the
  leading zero of the stream are \<open>80 00 00 00\<close>, or \<open>C0 00 00 00\<close>.
\<close>

definition sample_core :: DecoderCore where
  "sample_core = zeroCore\<lparr>m_properties := \<lparr>lc = 0, lp = 0, pb = 0, dicSize = 4096\<rparr>,
                          m_dic := \<lparr>mem = [0, 0, 0, 0], dsize = 4, pos = 0\<rparr>\<rparr>"

definition first_locals :: "u32 \<Rightarrow> locals" where
  "first_locals code0 =
     sample_locals\<lparr>l_state := 0, l_dic := [0, 0, 0, 0], l_dicPos := 0, l_processedPos := 0,
                   l_code := code0\<rparr>"

section \<open>Relations between states, for the statements\<close>

text \<open>
  \<open>rc_rel L L'\<close>: the two states differ at most in the range decoder (\<^verbatim>\<open>range\<close>, \<^verbatim>\<open>code\<close>,
  \<^verbatim>\<open>buf\<close>, the probabilities) and the auxiliary variables; \<open>dic_rel\<close> also lets \<^verbatim>\<open>state\<close> and
  \<^verbatim>\<open>len\<close> differ. \<open>resl\<close> and \<open>resl0\<close> are the state of a result, of either kind.
\<close>

definition rc_rel :: "locals \<Rightarrow> locals \<Rightarrow> bool" where
  "rc_rel L L' = (l_state L' = l_state L \<and> l_rep0 L' = l_rep0 L \<and> l_rep1 L' = l_rep1 L \<and>
     l_rep2 L' = l_rep2 L \<and> l_rep3 L' = l_rep3 L \<and> l_dic L' = l_dic L \<and>
     l_dicPos L' = l_dicPos L \<and> l_processedPos L' = l_processedPos L \<and> l_len L' = l_len L)"

definition resl :: "'a res \<Rightarrow> locals" where
  "resl r = (case r of Inl (e, L) \<Rightarrow> L | Inr (a, L) \<Rightarrow> L)"

definition resl0 :: "(error \<times> locals) + locals \<Rightarrow> locals" where
  "resl0 r = (case r of Inl (e, L) \<Rightarrow> L | Inr L \<Rightarrow> L)"

definition dic_rel :: "locals \<Rightarrow> locals \<Rightarrow> bool" where
  "dic_rel L L' = (l_rep0 L' = l_rep0 L \<and> l_rep1 L' = l_rep1 L \<and>
     l_rep2 L' = l_rep2 L \<and> l_rep3 L' = l_rep3 L \<and> l_dic L' = l_dic L \<and>
     l_dicPos L' = l_dicPos L \<and> l_processedPos L' = l_processedPos L)"

section \<open>Invariants of the range decoder\<close>

text \<open>
  \<open>norm_trace\<close> holds the value of \<^verbatim>\<open>range\<close> after every \<^verbatim>\<open>NORMALIZE\<close> that has run, so the
  property of all normalisations is a property of that list.
\<close>

definition trace_ok :: "u32 list \<Rightarrow> bool" where
  "trace_ok tr = (\<forall>r \<in> set tr. kTopValue \<le> r)"

text \<open>
  The probability table of a decoder with \<open>lc + lp = n\<close> has \<open>nprobs n\<close> counters
  (\<^verbatim>\<open>calcProbSize\<close>). A counter starts at 1024 and moves by \<^verbatim>\<open>UPDATE_0\<close> and \<^verbatim>\<open>UPDATE_1\<close>,
  which keep it between 31 and 2017.
\<close>

definition nprobs :: "nat \<Rightarrow> nat" where
  "nprobs n = 1846 + 768 * 2 ^ n"

definition probs_ok :: "nat \<Rightarrow> (nat \<Rightarrow> u32) \<Rightarrow> bool" where
  "probs_ok n P = (\<forall>i < nprobs n. 31 \<le> P i \<and> P i \<le> 2017)"

text \<open>
  What holds of the local variables of \<^verbatim>\<open>DecodeReal\<close>: \<open>einv\<close> at every moment, also when an
  exception leaves the function, and \<open>linv\<close> between two decoded bits, where \<^verbatim>\<open>range\<close> is at
  least \<open>2^16\<close> (one shift by eight bits then brings it to \<open>2^24\<close>).
\<close>

definition einv :: "nat \<Rightarrow> locals \<Rightarrow> bool" where
  "einv n L = (trace_ok (l_norm_trace L) \<and> probs_ok n (l_probs L))"

definition linv :: "nat \<Rightarrow> locals \<Rightarrow> bool" where
  "linv n L = (einv n L \<and> 0x10000 \<le> l_range L)"

text \<open>
  A result satisfies \<open>pinv n Q\<close> when the state of an error satisfies \<open>einv\<close>, and the state
  of a value satisfies \<open>linv\<close> and, with the value, \<open>Q\<close>; \<open>pinv0\<close> is the same for a result
  that is a state only.
\<close>

definition pinv :: "nat \<Rightarrow> ('a \<Rightarrow> locals \<Rightarrow> bool) \<Rightarrow> 'a res \<Rightarrow> bool" where
  "pinv n Q r = (case r of Inl (e, L') \<Rightarrow> einv n L' | Inr (a, L') \<Rightarrow> linv n L' \<and> Q a L')"

definition pinv0 :: "nat \<Rightarrow> (locals \<Rightarrow> bool) \<Rightarrow> (error \<times> locals) + locals \<Rightarrow> bool" where
  "pinv0 n Q r = (case r of Inl (e, L') \<Rightarrow> einv n L' | Inr L' \<Rightarrow> linv n L' \<and> Q L')"

text \<open>
  The constants of a call of \<^verbatim>\<open>DecodeReal\<close> fit a table of \<open>nprobs n\<close> counters: the index
  of a literal coder stays inside the table, and \<^verbatim>\<open>pbMask\<close> is at most 15.
\<close>

definition lit_ok :: "nat \<Rightarrow> env \<Rightarrow> bool" where
  "lit_ok n E = (\<forall>pp (b :: u8).
     unat ((of_nat LZMA_LIT_SIZE :: u32) *
           (push_bit (unat (e_lc E)) (pp AND e_lpMask E) +
            drop_bit (unat (8 - e_lc E)) (ucast b))) + 768 \<le> 768 * 2 ^ n)"

definition env_ok :: "nat \<Rightarrow> env \<Rightarrow> bool" where
  "env_ok n E = (unat (e_pbMask E) \<le> 15 \<and> lit_ok n E)"

text \<open>What a copy of a match leaves unchanged.\<close>

definition rcs_rel :: "locals \<Rightarrow> locals \<Rightarrow> bool" where
  "rcs_rel L L' = (l_probs L' = l_probs L \<and> l_range L' = l_range L \<and>
     l_norm_trace L' = l_norm_trace L \<and> l_state L' = l_state L)"

text \<open>
  The invariant of \<^verbatim>\<open>DecoderCore\<close>: the properties are those of an LZMA2 stream
  (\<open>lc + lp \<le> 4\<close>, \<open>pb \<le> 4\<close>), the range is at least \<open>2^16\<close> once the range decoder is
  initialised, the counters and the state are valid once the state is initialised, and
  \<^verbatim>\<open>checkDicSize\<close> is 0 or the dictionary size \<^verbatim>\<open>m_properties.dicSize\<close>. \<open>run_inv\<close> is the
  invariant where the range decoder and the state are initialised, as they are where
  \<^verbatim>\<open>DecodeReal\<close> is called.
\<close>

definition props_ok :: "Properties \<Rightarrow> bool" where
  "props_ok p = (unat (lc p) + unat (lp p) \<le> 4 \<and> unat (pb p) \<le> 4)"

definition nlit :: "DecoderCore \<Rightarrow> nat" where
  "nlit c = unat (lc (m_properties c)) + unat (lp (m_properties c))"

definition core_inv :: "DecoderCore \<Rightarrow> bool" where
  "core_inv c = (trace_ok (norm_trace c) \<and> props_ok (m_properties c) \<and>
     (needFlush c \<or> 0x10000 \<le> m_range c) \<and>
     (needInitState c \<or> (probs_ok (nlit c) (m_probs c) \<and> state c < 12)) \<and>
     (checkDicSize c = 0 \<or> checkDicSize c = dicSize (m_properties c)))"

definition run_inv :: "DecoderCore \<Rightarrow> bool" where
  "run_inv c = (core_inv c \<and> \<not> needFlush c \<and> \<not> needInitState c)"

text \<open>
  Predicates on the results of the functions of \<^verbatim>\<open>DecoderCore\<close>: \<open>cres P g\<close> holds when the
  decoder of the result (the one an error leaves, or \<open>g\<close> of the value) satisfies \<open>P\<close>;
  \<open>cresv P Q\<close> asks \<open>Q\<close> of the value. \<open>core_frame\<close> relates a decoder to one that differs
  from it only in what the invariant does not mention, or by \<^verbatim>\<open>checkDicSize\<close> having
  been set to the dictionary size.
\<close>

definition cres :: "(DecoderCore \<Rightarrow> bool) \<Rightarrow> ('a \<Rightarrow> DecoderCore) \<Rightarrow> (error \<times> DecoderCore) + 'a \<Rightarrow> bool" where
  "cres P g r = (case r of Inl (e, c) \<Rightarrow> P c | Inr a \<Rightarrow> P (g a))"

definition cresv :: "(DecoderCore \<Rightarrow> bool) \<Rightarrow> ('a \<Rightarrow> bool) \<Rightarrow> (error \<times> DecoderCore) + 'a \<Rightarrow> bool" where
  "cresv P Q r = (case r of Inl (e, c) \<Rightarrow> P c | Inr a \<Rightarrow> Q a)"

definition core_frame :: "DecoderCore \<Rightarrow> DecoderCore \<Rightarrow> bool" where
  "core_frame c c' = (norm_trace c' = norm_trace c \<and> m_properties c' = m_properties c \<and>
     needFlush c' = needFlush c \<and> m_range c' = m_range c \<and>
     needInitState c' = needInitState c \<and> m_probs c' = m_probs c \<and> state c' = state c \<and>
     (checkDicSize c' = checkDicSize c \<or> checkDicSize c' = dicSize (m_properties c)))"

text \<open>
  The invariant of \<^verbatim>\<open>Decoder2\<close>. Between the property byte of a chunk and the first call of
  \<^verbatim>\<open>DecoderCore::DecodeToDic\<close> for its data, the counters are those of the previous
  properties: this is the state \<open>pending\<close>, in which the chunk resets the state, so that the
  counters are initialised before they are used. \<open>framer_ok\<close> says that the framer reads
  the packed size and the property byte only in a compressed chunk, and the property byte
  only when the control byte announces it.
\<close>

definition pending :: "Decoder2 \<Rightarrow> bool" where
  "pending d = (state2 d = LZMA2_STATE_DATA \<and> \<not> isUncompressedState d \<and> 2 \<le> getLzmaMode d)"

definition framer_ok :: "Decoder2 \<Rightarrow> bool" where
  "framer_ok d =
     ((state2 d = LZMA2_STATE_PACK0 \<or> state2 d = LZMA2_STATE_PACK1 \<or> state2 d = LZMA2_STATE_PROP
         \<longrightarrow> \<not> isUncompressedState d) \<and>
      (state2 d = LZMA2_STATE_PROP \<longrightarrow> 2 \<le> getLzmaMode d))"

definition dec_inv :: "Decoder2 \<Rightarrow> bool" where
  "dec_inv d =
     (trace_ok (norm_trace (decoder d)) \<and> props_ok (m_properties (decoder d)) \<and>
      (needFlush (decoder d) \<or> 0x10000 \<le> m_range (decoder d)) \<and>
      (needInitState (decoder d) \<or> pending d \<or>
       (probs_ok (nlit (decoder d)) (m_probs (decoder d)) \<and> state (decoder d) < 12)) \<and>
      (checkDicSize (decoder d) = 0 \<or>
       checkDicSize (decoder d) = dicSize (m_properties (decoder d))) \<and>
      framer_ok d)"

definition dresv :: "(Decoder2 \<Rightarrow> bool) \<Rightarrow> ('a \<Rightarrow> bool) \<Rightarrow> (error \<times> Decoder2) + 'a \<Rightarrow> bool" where
  "dresv P Q r = (case r of Inl (e, d) \<Rightarrow> P d | Inr a \<Rightarrow> Q a)"

text \<open>
  The decoders a client reaches through the interface of \<^verbatim>\<open>Decoder2\<close>: it constructs one,
  resets it, assigns the dictionary window \<^verbatim>\<open>decoder.m_dic\<close>, and calls \<^verbatim>\<open>DecodeToDic\<close>, which
  returns or throws. (The other public members of \<^verbatim>\<open>decoder\<close>, such as \<^verbatim>\<open>m_properties\<close> and
  \<^verbatim>\<open>m_probs\<close>, are for the decoder itself: a client that writes to them is not covered.)
\<close>

inductive reachable :: "Decoder2 \<Rightarrow> bool" where
  constructed: "Decoder2_new prop u = Inr d \<Longrightarrow> reachable d"
| reset: "reachable d \<Longrightarrow> reachable (Reset d)"
| set_dic: "reachable d \<Longrightarrow> reachable (d\<lparr>decoder := (decoder d)\<lparr>m_dic := v\<rparr>\<rparr>)"
| returned: "reachable d \<Longrightarrow>
     Decoder2_DecodeToDic dicLimit src inSize finishMode d = Inr (a, d') \<Longrightarrow> reachable d'"
| raised: "reachable d \<Longrightarrow>
     Decoder2_DecodeToDic dicLimit src inSize finishMode d = Inl (e, d') \<Longrightarrow> reachable d'"

text \<open>
  A stream with one compressed chunk, \<open>E0 00 00 00 05 00\<close> and six zero bytes: it resets
  the dictionary, sets \<open>lc = lp = pb = 0\<close> and holds one literal, the byte 0. The decoder
  \<open>traced_decoder\<close> has read it into a window of one byte; the other definitions are the
  decoders and local variables on the way.
\<close>

definition lzma_chunk :: "u8 list" where
  "lzma_chunk = [0xE0, 0, 0, 0, 5, 0, 0, 0, 0, 0, 0, 0]"

definition one_byte_decoder :: Decoder2 where
  "one_byte_decoder =
     (case Decoder2_new 0 zeroDecoder2 of
        Inr d \<Rightarrow> d\<lparr>decoder := (decoder d)\<lparr>m_dic := \<lparr>mem = [0], dsize = 1, pos = 0\<rparr>\<rparr>\<rparr>
      | Inl e \<Rightarrow> zeroDecoder2)"

definition traced_decoder :: Decoder2 where
  "traced_decoder =
     (case Decoder2_DecodeToDic 1 lzma_chunk 12 Any one_byte_decoder of
        Inr (a, d) \<Rightarrow> d
      | Inl (e, d) \<Rightarrow> d)"

definition feed :: "u8 \<Rightarrow> Decoder2 \<Rightarrow> Decoder2" where
  "feed b d = (case UpdateState (ucast b) d of (st, d1) \<Rightarrow> d1\<lparr>state2 := st\<rparr>)"

definition header_decoder :: Decoder2 where
  "header_decoder = feed 0 (feed 5 (feed 0 (feed 0 (feed 0 (feed 0xE0 one_byte_decoder)))))"

definition core_start :: DecoderCore where
  "core_start = InitDicAndState True True (decoder header_decoder)"

definition core_filled :: DecoderCore where
  "core_filled = snd (snd (projr (fill_init [0, 0, 0, 0, 0, 0] 0 6 core_start)))"

definition core_ready :: DecoderCore where
  "core_ready = InitStateReal ((InitRc core_filled)\<lparr>tempBufSize := 0\<rparr>)"

definition locals_lit :: locals where
  "locals_lit = snd (projr (decode_symbol (env_of 1 0 [0] (core_ready\<lparr>buf := 0\<rparr>))
                                   (locals_of (core_ready\<lparr>buf := 0\<rparr>))))"

definition core_done :: DecoderCore where
  "core_done = projr (DecodeReal 1 0 [0] (core_ready\<lparr>buf := 0\<rparr>))"

definition chunk_decoder :: Decoder2 where
  "chunk_decoder = snd (snd (projr (Decoder2_compressed lzma_chunk 6 0 1 6 End header_decoder)))"

section \<open>Construction and the property byte\<close>

lemma word_lt40_cases: "(p :: u32) < 40 \<Longrightarrow> p \<in> set (map of_nat [0..<40])"
proof -
  assume "p < 40"
  then have "unat p < 40" by (simp add: word_less_nat_alt)
  then have "unat p \<in> set [0..<40]" by simp
  then have "of_nat (unat p) \<in> set (map of_nat [0..<40] :: u32 list)" unfolding set_map by (rule imageI)
  then show ?thesis by simp
qed

lemma dicSizeFromProp_unat: "(p::u32) < 40 \<Longrightarrow> unat (dicSizeFromProp p) = push_bit (unat p div 2 + 11) (2 OR (unat p AND 1))"
  apply (drule word_lt40_cases)
  apply (simp add: upt_rec dicSizeFromProp_def)
  apply (elim disjE; simp)
  done

lemma Decoder2_new_dicSize:
  "Decoder2_new prop u = Inr d \<Longrightarrow>
   dicSize (m_properties (decoder d)) = (if prop = 40 then 0xFFFFFFFF else dicSizeFromProp prop)"
  by (auto simp: Decoder2_new_def Reset_def InitDicAndState_def Let_def split: if_splits)

text \<open>
  Claim C7. Constructing a decoder fails with the invalid-argument error exactly when
  \<open>prop > 40\<close> (and with no other error); for \<open>prop = 40\<close> the dictionary size is
  \<open>0xFFFFFFFF = 2^32 - 1\<close>; for every \<open>prop < 40\<close> it is the number
  \<open>(2 | (prop & 1)) << (prop / 2 + 11)\<close>, which the 32-bit result holds without loss.
\<close>

theorem Decoder2_new_prop:
  "(Decoder2_new prop u = Inl InvalidArgument) = (40 < prop) \<and>
   (\<forall>e. Decoder2_new prop u = Inl e \<longrightarrow> e = InvalidArgument) \<and>
   (prop = 40 \<longrightarrow> (\<exists>d. Decoder2_new prop u = Inr d \<and>
        dicSize (m_properties (decoder d)) = 0xFFFFFFFF \<and>
        unat (dicSize (m_properties (decoder d))) = 2 ^ 32 - 1)) \<and>
   (prop < 40 \<longrightarrow> (\<exists>d. Decoder2_new prop u = Inr d \<and>
        unat (dicSize (m_properties (decoder d))) =
          push_bit (unat prop div 2 + 11) (2 OR (unat prop AND 1))))"
proof (intro conjI allI impI)
  show "(Decoder2_new prop u = Inl InvalidArgument) = (40 < prop)"
    by (simp add: Decoder2_new_def)
next
  fix e assume "Decoder2_new prop u = Inl e"
  then show "e = InvalidArgument"
    by (simp add: Decoder2_new_def split: if_splits)
next
  assume p: "prop = 40"
  then obtain d where d: "Decoder2_new prop u = Inr d"
    by (simp add: Decoder2_new_def)
  from Decoder2_new_dicSize[OF d] p
  have "dicSize (m_properties (decoder d)) = 0xFFFFFFFF" by simp
  with d show "\<exists>d. Decoder2_new prop u = Inr d \<and>
        dicSize (m_properties (decoder d)) = 0xFFFFFFFF \<and>
        unat (dicSize (m_properties (decoder d))) = 2 ^ 32 - 1"
    by simp
next
  assume p: "prop < 40"
  then have "\<not> 40 < prop" "prop \<noteq> 40" by auto
  then obtain d where d: "Decoder2_new prop u = Inr d"
    by (simp add: Decoder2_new_def)
  from Decoder2_new_dicSize[OF d] \<open>prop \<noteq> 40\<close>
  have "dicSize (m_properties (decoder d)) = dicSizeFromProp prop" by simp
  with d dicSizeFromProp_unat[OF p]
  show "\<exists>d. Decoder2_new prop u = Inr d \<and>
        unat (dicSize (m_properties (decoder d))) =
          push_bit (unat prop div 2 + 11) (2 OR (unat prop AND 1))"
    by simp
qed

theorem Decoder2_new_prop_witness:
  "Decoder2_new 41 zeroDecoder2 = Inl InvalidArgument \<and>
   (\<exists>d. Decoder2_new 40 zeroDecoder2 = Inr d \<and> unat (dicSize (m_properties (decoder d))) = 4294967295) \<and>
   (\<exists>d. Decoder2_new 0x18 zeroDecoder2 = Inr d \<and> unat (dicSize (m_properties (decoder d))) = 16777216)"
  using Decoder2_new_prop[of 41 zeroDecoder2] Decoder2_new_prop[of 40 zeroDecoder2]
        Decoder2_new_prop[of "0x18" zeroDecoder2]
  by auto

text \<open>
  Claim C10. In the framer state \<open>LZMA2_STATE_PROP\<close>, a property byte \<open>b < 225\<close> with
  \<open>(b % 9) + ((b / 9) % 5) > 4\<close> makes \<open>UpdateState\<close> return \<open>LZMA2_STATE_ERROR\<close>, and the
  decoder it leaves behind differs from the one before exactly in \<open>pb\<close>, which is now
  \<open>(b / 9) / 5\<close>; \<open>lc\<close> and \<open>lp\<close> are the old ones.
\<close>

theorem UpdateState_prop_rejected:
  assumes "state2 d = LZMA2_STATE_PROP"
      and "b < 225"
      and "4 < unat b mod 9 + (unat b div 9) mod 5"
  shows "UpdateState b d =
           (LZMA2_STATE_ERROR,
            d\<lparr>decoder := (decoder d)\<lparr>m_properties :=
                 (m_properties (decoder d))\<lparr>pb := (b div 9) div 5\<rparr>\<rparr>\<rparr>)
         \<and> pb (m_properties (decoder (snd (UpdateState b d)))) = of_nat (unat b div 9 div 5)
         \<and> lc (m_properties (decoder (snd (UpdateState b d)))) = lc (m_properties (decoder d))
         \<and> lp (m_properties (decoder (snd (UpdateState b d)))) = lp (m_properties (decoder d))"
proof -
  have b: "unat b < 225" using assms(2) by (simp add: word_less_nat_alt)
  have "unat (b mod 9 + b div 9 mod 5) = unat b mod 9 + (unat b div 9) mod 5"
    using b by (simp add: unat_word_ariths unat_div unat_mod)
  then have gt: "b mod 9 + b div 9 mod 5 > LC_PLUS_LP_MAX"
    using assms(3) by (simp add: LC_PLUS_LP_MAX_def word_less_nat_alt)
  have nb: "\<not> (9 * 5 * 5 \<le> b)" using assms(2) by simp
  have "unat ((b div 9) div 5) = unat b div 9 div 5"
    by (simp add: unat_div)
  then have "of_nat (unat ((b div 9) div 5)) = (of_nat (unat b div 9 div 5) :: u32)"
    by simp
  then have pbv: "(b div 9) div 5 = of_nat (unat b div 9 div 5)"
    by simp
  show ?thesis
    using assms(1) nb gt pbv by (simp add: UpdateState_def Let_def)
qed

theorem UpdateState_prop_rejected_witness:
  "UpdateState 98 (zeroDecoder2\<lparr>state2 := LZMA2_STATE_PROP\<rparr>) =
     (LZMA2_STATE_ERROR,
      zeroDecoder2\<lparr>state2 := LZMA2_STATE_PROP,
                   decoder := zeroCore\<lparr>m_properties := \<lparr>lc = 0, lp = 0, pb = 2, dicSize = 0\<rparr>\<rparr>\<rparr>)"
  using UpdateState_prop_rejected[of "zeroDecoder2\<lparr>state2 := LZMA2_STATE_PROP\<rparr>" 98]
  by (simp add: zeroDecoder2_def zeroCore_def)

section \<open>The one-call interface on an uncompressed chunk\<close>

text \<open>
  Claim C9. \<open>test_input\<close> is the stream \<open>01 00 07 't' 'e' 's' 't' '_' 's' 't' 'r' 00\<close> and
  \<open>test_str\<close> the eight bytes of \<open>"test_str"\<close>. With the property byte \<open>0x18\<close>, a destination
  of \<open>outSize\<close> bytes that is longer than eight bytes (or of eight bytes, in the finish mode
  \<open>End\<close>), and whatever the constructor leaves indeterminate, \<open>Lzma2Decode\<close> returns
  \<open>true\<close> with \<open>destLen = 8\<close>, \<open>srcLen = 12\<close> and the status \<open>FinishedWithMark\<close>, and the first
  eight bytes of the destination are \<open>test_str\<close>. The test of the repository calls it with a
  destination of 1024 bytes in the finish mode \<open>End\<close>.
\<close>

theorem Lzma2Decode_test_str:
  assumes len: "length dest = unat outSize"
      and sz: "8 < outSize \<or> (outSize = 8 \<and> finishMode = End)"
  shows "Lzma2Decode dest outSize test_input 12 0x18 finishMode u =
         Inr (True, 8, 12, FinishedWithMark, test_str @ drop 8 dest)"
proof -
  have o8: "8 \<le> outSize" "outSize \<noteq> 0" using sz by auto
  have l8: "8 \<le> length dest" using len o8 by (simp add: word_le_nat_alt)
  have fin: "\<not> (outSize = 8 \<and> finishMode = Any)" using sz by auto
  show ?thesis
    using o8 l8 fin
    apply (simp add: Lzma2Decode_def Decoder2_new_def Reset_def InitDicAndState_def
        Decoder2_DecodeToDic_def test_input_def test_str_def Let_def)
    apply (simp add: Decoder2_loop.simps Decoder2_body_def UpdateState_def Let_def
        isUncompressedState_def CONTROL_LZMA_def Decoder2_uncompressed_def
        CONTROL_COPY_RESET_DIC_def InitDicAndState_def UpdateWithUncompressed_def
        dicSizeFromProp_def word_le_nat_alt word_less_nat_alt)
    done
qed

theorem Lzma2Decode_test_str_witness:
  "Lzma2Decode (replicate 1024 0) 1024 test_input 12 0x18 End zeroDecoder2 =
     Inr (True, 8, 12, FinishedWithMark, test_str @ replicate 1016 0)"
  using Lzma2Decode_test_str [of "replicate 1024 0" 1024 End zeroDecoder2]
  by simp

section \<open>The symbol decoder\<close>

lemma resl_simps [simp]: "resl (Inl (e, L)) = L" "resl (Inr (a, L)) = L"
  by (simp_all add: resl_def)

lemma resl0_simps [simp]: "resl0 (Inl (e, L)) = L" "resl0 (Inr L) = L"
  by (simp_all add: resl0_def)

lemma rc_rel_refl [simp]: "rc_rel L L"
  by (simp add: rc_rel_def)

lemma rc_rel_trans: "rc_rel L L1 \<Longrightarrow> rc_rel L1 L2 \<Longrightarrow> rc_rel L L2"
  by (simp add: rc_rel_def)

lemma rc_rel_NORMALIZE: "rc_rel L (resl0 (NORMALIZE inp L))"
  by (simp add: NORMALIZE_def rc_rel_def)

lemma rc_rel_isBit0: "rc_rel L (resl (isBit0 x inp L))"
  by (simp add: isBit0_def NORMALIZE_def rc_rel_def Let_def)

lemma rc_rel_UPDATE_0 [simp]: "rc_rel L (UPDATE_0 x L)"
  by (simp add: UPDATE_0_def rc_rel_def)

lemma rc_rel_UPDATE_1 [simp]: "rc_rel L (UPDATE_1 x L)"
  by (simp add: UPDATE_1_def rc_rel_def)

lemma rc_rel_GET_BIT2: "rc_rel L (resl (GET_BIT2 x i inp L))"
proof (cases "isBit0 x inp L")
  case (Inl a)
  then show ?thesis using rc_rel_isBit0[of L x inp] by (cases a) (simp add: GET_BIT2_def)
next
  case (Inr b)
  then show ?thesis using rc_rel_isBit0[of L x inp]
    by (cases b) (auto simp: GET_BIT2_def intro: rc_rel_trans[OF _ rc_rel_UPDATE_0] rc_rel_trans[OF _ rc_rel_UPDATE_1])
qed

lemma rc_rel_GET_BIT: "rc_rel L (resl (GET_BIT x i inp L))"
  using rc_rel_GET_BIT2[of L x i inp]
  by (auto simp: GET_BIT_def bindR_def split: sum.splits prod.splits)

lemma rc_rel_tree_loop:
  assumes "tree_loop probs lim i inp L = Some r"
  shows "rc_rel L (resl r)"
proof (rule tree_loop.raw_induct[where P = "\<lambda>probs lim i inp L r. rc_rel L (resl r)", OF _ assms],
       goal_cases)
  case (1 f probs lim i inp L r)
  note IH = 1(1) and eq = 1(2)
  show ?case
  proof (cases "GET_BIT (probs + unat i) i inp L")
    case (Inl a)
    then show ?thesis using eq rc_rel_GET_BIT[of L "probs + unat i" i inp]
      by (cases a) auto
  next
    case (Inr b)
    obtain i' L1 where b: "b = (i', L1)" by (cases b)
    have r1: "rc_rel L L1" using rc_rel_GET_BIT[of L "probs + unat i" i inp] Inr b by simp
    show ?thesis
    proof (cases "i' < lim")
      case True
      then have "f probs lim i' inp L1 = Some r" using eq Inr b by simp
      then have "rc_rel L1 (resl r)" by (rule IH)
      with r1 show ?thesis by (rule rc_rel_trans)
    next
      case False
      then show ?thesis using eq Inr b r1 by auto
    qed
  qed
qed

lemma rc_rel_matched_lit_loop:
  assumes "matched_lit_loop prob matchByte offs symbol inp L = Some r"
  shows "rc_rel L (resl r)"
proof (rule matched_lit_loop.raw_induct[where P = "\<lambda>prob matchByte offs symbol inp L r. rc_rel L (resl r)",
         OF _ assms], goal_cases)
  case (1 f prob matchByte offs symbol inp L r)
  note IH = 1(1) and eq = 1(2)
  let ?x = "prob + unat offs + unat (push_bit 1 matchByte AND offs) + unat symbol"
  show ?case
  proof (cases "GET_BIT2 ?x symbol inp L")
    case (Inl a)
    then show ?thesis using eq rc_rel_GET_BIT2[of L ?x symbol inp]
      by (cases a) (auto simp: Let_def)
  next
    case (Inr b)
    obtain bt s1 L1 where b: "b = ((bt, s1), L1)" by (cases b) auto
    have r1: "rc_rel L L1" using rc_rel_GET_BIT2[of L ?x symbol inp] Inr b by simp
    show ?thesis
    proof (cases "s1 < 0x100")
      case True
      then obtain mb' offs' where "f prob mb' offs' s1 inp L1 = Some r"
        using eq Inr b by (auto simp: Let_def split: if_splits)
      then have "rc_rel L1 (resl r)" by (rule IH)
      with r1 show ?thesis by (rule rc_rel_trans)
    next
      case False
      then show ?thesis using eq Inr b r1 by (auto simp: Let_def)
    qed
  qed
qed

lemma rc_rel_run_tree_loop: "rc_rel L (resl (run L (tree_loop probs lim i inp L)))"
  by (cases "tree_loop probs lim i inp L") (auto simp: run_def dest: rc_rel_tree_loop)

lemma rc_rel_run_matched_lit_loop:
  "rc_rel L (resl (run L (matched_lit_loop prob matchByte offs symbol inp L)))"
  by (cases "matched_lit_loop prob matchByte offs symbol inp L")
     (auto simp: run_def dest: rc_rel_matched_lit_loop)

lemma run_tree_loop_Inr:
  "run L (tree_loop probs lim i inp L) = Inr (s, L') \<Longrightarrow> rc_rel L L'"
  using rc_rel_run_tree_loop[of L probs lim i inp] by simp

lemma run_matched_lit_loop_Inr:
  "run L (matched_lit_loop prob matchByte offs symbol inp L) = Inr (s, L') \<Longrightarrow> rc_rel L L'"
  using rc_rel_run_matched_lit_loop[of L prob matchByte offs symbol inp] by simp

lemma isBit0_Inr: "isBit0 x inp L = Inr (b, L') \<Longrightarrow> rc_rel L L'"
  using rc_rel_isBit0[of L x inp] by simp

lemma dic_read_Inr: "dic_read i L = Inr (v, L') \<Longrightarrow> L' = L"
  by (auto simp: dic_read_def split: if_splits)

lemma dic_write_Inr: "dic_write i v L = Inr L' \<Longrightarrow> rc_rel (L\<lparr>l_dic := l_dic L'\<rparr>) L'"
  by (auto simp: dic_write_def rc_rel_def split: if_splits)

lemma lit_prob_Inr: "lit_prob E L = Inr (p, L') \<Longrightarrow> L' = L"
  by (auto simp: lit_prob_def dic_read_def split: if_splits)

lemma decode_literal_state:
  assumes "decode_literal E L = Inr L'"
  shows "l_state L' = (if l_state L < 4 then 0 else if l_state L < 10 then l_state L - 3
                        else l_state L - 6)
         \<and> l_dicPos L' = l_dicPos L + 1 \<and> l_processedPos L' = l_processedPos L + 1"
  using assms
  by (auto simp: decode_literal_def bindR_def rc_rel_def Let_def kNumLitStates_def
                 word_less_nat_alt
           split: sum.splits prod.splits if_splits
           dest!: run_tree_loop_Inr run_matched_lit_loop_Inr dic_read_Inr dic_write_Inr lit_prob_Inr)

text \<open>
  Claim C1, as the code has it. When the bit decoded at \<open>IsMatch\<close> is 0 (\<open>isBit0\<close> holds) and
  the symbol is decoded without an error, the new state is \<open>state - min(state, 3)\<close>, that
  is 0, for \<open>state < 4\<close>, it is \<open>state - 3\<close> for \<open>4 \<le> state < 10\<close>, and \<open>state - 6\<close> for
  \<open>10 \<le> state\<close>; one byte has been written, and the loop goes on.
\<close>

theorem literal_state_update:
  assumes lit: "isBit0 (IsMatch + unat (push_bit kNumPosBitsMax (l_state L)) +
                         unat (l_processedPos L AND e_pbMask E)) (e_inp E) L = Inr (True, L1)"
      and ok: "decode_symbol E L = Inr (brk, L')"
  shows "l_state L' = (if l_state L < 4 then l_state L - min (l_state L) 3
                        else if l_state L < 10 then l_state L - 3
                        else l_state L - 6)
         \<and> \<not> brk \<and> l_dicPos L' = l_dicPos L + 1"
proof -
  let ?prob = "IsMatch + unat (push_bit kNumPosBitsMax (l_state L)) +
               unat (l_processedPos L AND e_pbMask E)"
  have r1: "rc_rel L (UPDATE_0 ?prob L1)"
    using isBit0_Inr[OF lit] by (simp add: rc_rel_def UPDATE_0_def)
  from ok lit obtain L2 where d: "decode_literal E (UPDATE_0 ?prob L1) = Inr L2"
    and e: "brk = False" "L' = L2"
    by (auto simp: decode_symbol_def Let_def bindR_def split: sum.splits)
  have m: "l_state L < 4 \<Longrightarrow> min (l_state L) 3 = l_state L"
    by (simp add: min_def word_less_nat_alt word_le_nat_alt)
  from decode_literal_state[OF d] r1 e m show ?thesis
    by (auto simp: rc_rel_def)
qed

theorem literal_state_update_witness:
  "l_state (snd (projr (decode_symbol sample_env sample_locals))) = 4"
  using literal_state_update[of sample_locals sample_env
      "snd (projr (isBit0 160 (e_inp sample_env) sample_locals))"
      "fst (projr (decode_symbol sample_env sample_locals))"
      "snd (projr (decode_symbol sample_env sample_locals))"]
  by (simp add: decode_symbol_def sample_env_def sample_locals_def isBit0_def NORMALIZE_def
     lzma_consts UPDATE_0_def UPDATE_1_def decode_literal_def lit_prob_def dic_read_def dic_write_def
     rep0_pos_def Let_def GET_BIT2_def matched_lit_loop.simps run_def)

text \<open>
  The claim C1 as stated fails in the states 10 and 11: in the state 10 a literal leaves
  the state 4, not \<open>10 - 3\<close>.
\<close>

theorem literal_state_counterexample:
  "fst (projr (isBit0 (IsMatch + unat (push_bit kNumPosBitsMax (l_state sample_locals)) +
                         unat (l_processedPos sample_locals AND e_pbMask sample_env))
                 (e_inp sample_env) sample_locals))
   \<and> \<not> isl (decode_symbol sample_env sample_locals)
   \<and> l_state sample_locals = 10
   \<and> l_state (snd (projr (decode_symbol sample_env sample_locals))) = 4
   \<and> l_state (snd (projr (decode_symbol sample_env sample_locals))) \<noteq> l_state sample_locals - 3"
  by (simp add: decode_symbol_def sample_env_def sample_locals_def isBit0_def NORMALIZE_def
     lzma_consts UPDATE_0_def UPDATE_1_def decode_literal_def lit_prob_def dic_read_def dic_write_def
     rep0_pos_def Let_def GET_BIT2_def matched_lit_loop.simps run_def)





lemma rc_rel_dic_rel: "rc_rel L L' \<Longrightarrow> dic_rel L L'"
  by (simp add: rc_rel_def dic_rel_def)

lemma GET_BIT2_Inr: "GET_BIT2 x i inp L = Inr (r, L') \<Longrightarrow> rc_rel L L'"
  using rc_rel_GET_BIT2[of L x i inp] by simp

lemma GET_BIT_Inr: "GET_BIT x i inp L = Inr (r, L') \<Longrightarrow> rc_rel L L'"
  using rc_rel_GET_BIT[of L x i inp] by simp

lemma NORMALIZE_Inr: "NORMALIZE inp L = Inr L' \<Longrightarrow> rc_rel L L'"
  using rc_rel_NORMALIZE[of L inp] by simp

lemma TREE_DECODE_Inr: "TREE_DECODE probs lim inp L = Inr (r, L') \<Longrightarrow> rc_rel L L'"
  by (auto simp: TREE_DECODE_def bindR_def split: sum.splits dest: run_tree_loop_Inr)

lemma TREE_6_DECODE_Inr: "TREE_6_DECODE probs inp L = Inr (r, L') \<Longrightarrow> rc_rel L L'"
  by (auto simp: TREE_6_DECODE_def bindR_def split: sum.splits dest!: GET_BIT_Inr)
     (simp add: rc_rel_def)

lemma spec_pos_loop_Inr:
  "spec_pos_loop prob n distance msk i inp L = Inr (r, L') \<Longrightarrow> rc_rel L L'"
proof (induction prob n distance msk i inp L rule: spec_pos_loop.induct)
  case (1 prob n distance msk i inp L)
  show ?case
  proof (cases "GET_BIT2 (prob + unat i) i inp L")
    case (Inl a)
    then show ?thesis using "1.prems" by (subst (asm) spec_pos_loop.simps) simp
  next
    case (Inr b)
    obtain bt i1 L1 where b: "b = ((bt, i1), L1)" by (cases b) auto
    have r1: "rc_rel L L1" using GET_BIT2_Inr Inr b by blast
    show ?thesis
    proof (cases "n - 1 \<noteq> 0")
      case True
      then have "spec_pos_loop prob (n - 1) (if bt then distance OR msk else distance)
                   (push_bit 1 msk) i1 inp L1 = Inr (r, L')"
        using "1.prems" Inr b by (subst (asm) spec_pos_loop.simps) (simp add: Let_def)
      then have "rc_rel L1 L'"
        using "1.IH"[OF Inr b[symmetric] refl refl refl refl True] by blast
      with r1 show ?thesis by (rule rc_rel_trans)
    next
      case False
      then show ?thesis using "1.prems" Inr b r1
        by (subst (asm) spec_pos_loop.simps) (simp add: Let_def)
    qed
  qed
qed

lemma direct_bits_loop_Inr:
  "direct_bits_loop n distance inp L = Inr (r, L') \<Longrightarrow> rc_rel L L'"
proof (induction n distance inp L rule: direct_bits_loop.induct)
  case (1 n distance inp L)
  show ?case
  proof (cases "NORMALIZE inp L")
    case (Inl a)
    then show ?thesis using "1.prems" by (subst (asm) direct_bits_loop.simps) simp
  next
    case (Inr L1)
    have r1: "rc_rel L L1" using NORMALIZE_Inr Inr by blast
    let ?L2 = "L1\<lparr>l_range := drop_bit 1 (l_range L1)\<rparr>"
    let ?L3 = "?L2\<lparr>l_code := l_code ?L2 - l_range ?L2\<rparr>"
    let ?t = "0 - drop_bit 31 (l_code ?L3)"
    let ?d1 = "push_bit 1 distance + (?t + 1)"
    let ?L4 = "?L3\<lparr>l_code := l_code ?L3 + (l_range ?L3 AND ?t)\<rparr>"
    have r4: "rc_rel L ?L4" using r1 by (simp add: rc_rel_def)
    show ?thesis
    proof (cases "n - 1 \<noteq> 0")
      case True
      then have "direct_bits_loop (n - 1) ?d1 inp ?L4 = Inr (r, L')"
        using "1.prems" Inr by (subst (asm) direct_bits_loop.simps) (simp add: Let_def)
      then have "rc_rel ?L4 L'"
        using "1.IH"[OF Inr refl refl refl refl refl refl True] by blast
      with r4 show ?thesis by (rule rc_rel_trans)
    next
      case False
      then show ?thesis using "1.prems" Inr r4
        by (subst (asm) direct_bits_loop.simps) (auto simp add: Let_def)
    qed
  qed
qed

lemma decode_len_Inr:
  "decode_len prob posState inp L = Inr L' \<Longrightarrow> dic_rel L L' \<and> l_state L' = l_state L"
  by (auto simp: decode_len_def bindR_def Let_def rc_rel_def dic_rel_def
          split: sum.splits prod.splits if_splits
          dest!: isBit0_Inr TREE_DECODE_Inr)
     (auto simp: UPDATE_0_def UPDATE_1_def)

lemma decode_dist_value_Some:
  "decode_dist_value E L = Inr (Some distance, L') \<Longrightarrow> rc_rel L L'"
  by (auto simp: decode_dist_value_def bindR_def Let_def
          split: sum.splits prod.splits if_splits
          dest!: TREE_6_DECODE_Inr spec_pos_loop_Inr direct_bits_loop_Inr GET_BIT2_Inr)
     (auto simp: rc_rel_def)

lemmas eval_defs = decode_symbol_def isBit0_def NORMALIZE_def
     lzma_consts UPDATE_0_def UPDATE_1_def decode_literal_def lit_prob_def dic_read_def dic_write_def
     rep0_pos_def Let_def GET_BIT2_def GET_BIT_def matched_lit_loop.simps tree_loop.simps run_def
     match_tail_def decode_len_def decode_distance_def decode_dist_value_def TREE_DECODE_def
     TREE_6_DECODE_def check_distance_def decode_rep_def env_of_def


text \<open>
  Claim C2 at a stream that starts with an uncompressed chunk without a dictionary reset
  (\<open>02 00 00\<close> and one byte of data): the first call raises \<open>BadStream\<close> and leaves the framer
  in \<open>LZMA2_STATE_DATA\<close>, not in \<open>LZMA2_STATE_ERROR\<close>; a second call with no input returns
  \<open>NeedsMoreInput\<close> instead of raising the error again. Once the framer is in
  \<open>LZMA2_STATE_ERROR\<close>, as after a bad header byte, every call raises \<open>BadStream\<close>
  (\<open>Decoder2_error_state_sticky\<close>).
\<close>

theorem DecodeToDic_error_not_sticky:
  "Decoder2_DecodeToDic 16 [2, 0, 0, 0x41] 4 End fresh_decoder =
     Inl (BadStream, fresh_decoder\<lparr>control := 2, unpackSize := 1, state2 := LZMA2_STATE_DATA\<rparr>)
   \<and> state2 (fresh_decoder\<lparr>control := 2, unpackSize := 1, state2 := LZMA2_STATE_DATA\<rparr>)
       \<noteq> LZMA2_STATE_ERROR
   \<and> Decoder2_DecodeToDic 16 [] 0 End
       (fresh_decoder\<lparr>control := 2, unpackSize := 1, state2 := LZMA2_STATE_DATA\<rparr>) =
     Inr ((0, NeedsMoreInput),
          fresh_decoder\<lparr>control := 2, unpackSize := 1, state2 := LZMA2_STATE_DATA\<rparr>)"
  by (simp add: Decoder2_DecodeToDic_def fresh_decoder_def Decoder2_new_def Reset_def
      InitDicAndState_def zeroDecoder2_def zeroCore_def Decoder2_loop.simps Decoder2_body_def
      UpdateState_def Let_def isUncompressedState_def CONTROL_LZMA_def Decoder2_uncompressed_def
      CONTROL_COPY_RESET_DIC_def dicSizeFromProp_def)

lemma Decoder2_error_state_sticky:
  "state2 d = LZMA2_STATE_ERROR \<Longrightarrow>
   Decoder2_DecodeToDic dicLimit src inSize finishMode d = Inl (BadStream, d)"
  by (simp add: Decoder2_DecodeToDic_def Decoder2_loop.simps Decoder2_body_def Let_def)


section \<open>The range stays above \<open>2^24\<close> after a normalisation\<close>

lemma linv_einv: "linv n L \<Longrightarrow> einv n L"
  by (simp add: linv_def)

lemma u32_shift8_ge:
  assumes "(0x10000 :: u32) \<le> r" and "r < 0x1000000"
  shows "(0x1000000 :: u32) \<le> push_bit 8 r"
proof -
  have a: "65536 \<le> unat r" "unat r < 16777216"
    using assms by (simp_all add: word_le_nat_alt word_less_nat_alt)
  then have "unat r * unat (256 :: u32) < 2 ^ LENGTH(32)" by simp
  then have "unat (r * 256) = unat r * 256"
    using unat_mult_lem[of r 256] by simp
  then show ?thesis using a by (simp add: push_bit_eq_mult word_le_nat_alt)
qed

lemma NORMALIZE_linv:
  assumes "linv n L" and "NORMALIZE inp L = Inr L'"
  shows "linv n L' \<and> kTopValue \<le> l_range L'"
proof (cases "l_range L < kTopValue")
  case True
  then have L': "L' = L\<lparr>l_range := push_bit 8 (l_range L),
                     l_code := push_bit 8 (l_code L) OR ucast (inp ! l_buf L),
                     l_buf := l_buf L + 1,
                     l_norm_trace := push_bit 8 (l_range L) # l_norm_trace L\<rparr>"
    using assms(2) by (auto simp: NORMALIZE_def split: if_splits)
  have "(0x1000000 :: u32) \<le> push_bit 8 (l_range L)"
    using u32_shift8_ge[of "l_range L"] assms(1) True by (simp add: linv_def lzma_consts)
  moreover from this have "(0x10000 :: u32) \<le> push_bit 8 (l_range L)"
    by (rule order_trans[rotated]) simp
  ultimately show ?thesis using assms(1) L'
    by (auto simp: linv_def einv_def trace_ok_def lzma_consts)
next
  case False
  then have L': "L' = L\<lparr>l_norm_trace := l_range L # l_norm_trace L\<rparr>"
    using assms(2) by (auto simp: NORMALIZE_def split: if_splits)
  show ?thesis using assms(1) L' False
    by (auto simp: linv_def einv_def trace_ok_def not_less)
qed

lemma NORMALIZE_Inl: "NORMALIZE inp L = Inl (e, L') \<Longrightarrow> L' = L"
  by (auto simp: NORMALIZE_def split: if_splits)

text \<open>arithmetic of one decoded bit\<close>

lemma bit_bound_arith:
  fixes r t :: u32
  assumes r: "0x1000000 \<le> r" and t: "31 \<le> t" "t \<le> 2017"
  shows "0x10000 \<le> drop_bit 11 r * t"
    and "0x10000 \<le> r - drop_bit 11 r * t"
proof -
  let ?q = "unat r div 2048"
  have ur: "16777216 \<le> unat r" "unat r < 4294967296"
    using r unsigned_less[of r, where 'a = nat] by (simp_all add: word_le_nat_alt)
  have ut: "31 \<le> unat t" "unat t \<le> 2017"
    using t by (simp_all add: word_le_nat_alt)
  have q: "8192 \<le> ?q" "?q < 2097152" using ur by auto
  have uq: "unat (drop_bit 11 r) = ?q"
    by (simp add: unat_drop_bit_eq drop_bit_eq_div unat_div)
  have le: "?q * unat t \<le> ?q * 2017" using ut by simp
  have ge: "?q * 31 \<le> ?q * unat t" using ut by simp
  have "?q * unat t \<le> 2097151 * 2017"
    using q ut by (intro mult_le_mono) auto
  then have lt: "?q * unat t < 2 ^ LENGTH(32)" by simp
  have um: "unat (drop_bit 11 r * t) = ?q * unat t"
    using unat_mult_lem[of "drop_bit 11 r" t] lt uq by simp
  have A: "253952 \<le> ?q * unat t"
    using q ut mult_le_mono[of 8192 ?q 31 "unat t"] by simp
  show "0x10000 \<le> drop_bit 11 r * t"
    using um A by (simp add: word_le_nat_alt)
  have qr: "?q * 2048 \<le> unat r" by simp
  have ler: "?q * unat t \<le> unat r" using le qr by linarith
  then have "drop_bit 11 r * t \<le> r" using um by (simp add: word_le_nat_alt)
  then have us: "unat (r - drop_bit 11 r * t) = unat r - ?q * unat t"
    using um by (simp add: unat_sub)
  have B: "253952 \<le> ?q * 31" using q by simp
  have "?q * 31 \<le> unat r - ?q * unat t" using le qr by linarith
  with B have "65536 \<le> unat r - ?q * unat t" by linarith
  then show "0x10000 \<le> r - drop_bit 11 r * t"
    using us by (simp add: word_le_nat_alt)
qed

lemma prob_update_arith:
  fixes t :: u32
  assumes t: "31 \<le> t" "t \<le> 2017"
  shows "31 \<le> t + drop_bit 5 (2048 - t)" "t + drop_bit 5 (2048 - t) \<le> 2017"
        "31 \<le> t - drop_bit 5 t" "t - drop_bit 5 t \<le> 2017"
proof -
  have ut: "31 \<le> unat t" "unat t \<le> 2017"
    using t by (simp_all add: word_le_nat_alt)
  have "t \<le> 2048" using ut by (simp add: word_le_nat_alt)
  then have s: "unat (2048 - t) = 2048 - unat t" by (simp add: unat_sub)
  have d: "unat (drop_bit 5 (2048 - t)) = (2048 - unat t) div 32"
    using s by (simp add: unat_drop_bit_eq drop_bit_eq_div unat_div)
  have "unat t + (2048 - unat t) div 32 < 2 ^ LENGTH(32)" using ut by simp
  then have a: "unat (t + drop_bit 5 (2048 - t)) = unat t + (2048 - unat t) div 32"
    using d by (simp add: unat_add_lem[THEN iffD1])
  show "31 \<le> t + drop_bit 5 (2048 - t)" "t + drop_bit 5 (2048 - t) \<le> 2017"
    using a ut by (simp_all add: word_le_nat_alt)
  have d2: "unat (drop_bit 5 t) = unat t div 32"
    by (simp add: unat_drop_bit_eq drop_bit_eq_div unat_div)
  then have "drop_bit 5 t \<le> t" by (simp add: word_le_nat_alt)
  then have b: "unat (t - drop_bit 5 t) = unat t - unat t div 32"
    using d2 by (simp add: unat_sub)
  show "31 \<le> t - drop_bit 5 t" "t - drop_bit 5 t \<le> 2017"
    using b ut by (simp_all add: word_le_nat_alt)
qed

subsection \<open>Rules for results, and the decoding of one bit\<close>

lemma pinv_simps [simp]:
  "pinv n Q (Inl (e, L')) = einv n L'"
  "pinv n Q (Inr (a, L')) = (linv n L' \<and> Q a L')"
  by (simp_all add: pinv_def)

lemma pinv0_simps [simp]:
  "pinv0 n Q (Inl (e, L')) = einv n L'"
  "pinv0 n Q (Inr L') = (linv n L' \<and> Q L')"
  by (simp_all add: pinv0_def)

lemma pinv_bindR:
  assumes "pinv n Q m" and "\<And>a L'. linv n L' \<Longrightarrow> Q a L' \<Longrightarrow> pinv n Q2 (f (a, L'))"
  shows "pinv n Q2 (bindR m f)"
proof (cases m)
  case (Inl a)
  then show ?thesis using assms(1) by (cases a) simp
next
  case (Inr b)
  obtain a L' where b: "b = (a, L')" by (cases b)
  show ?thesis using assms(1) assms(2)[of L' a] Inr b by simp
qed

lemma pinv_bindR0:
  assumes "pinv n Q m" and "\<And>a L'. linv n L' \<Longrightarrow> Q a L' \<Longrightarrow> pinv0 n Q2 (f (a, L'))"
  shows "pinv0 n Q2 (bindR m f)"
proof (cases m)
  case (Inl a)
  then show ?thesis using assms(1) by (cases a) simp
next
  case (Inr b)
  obtain a L' where b: "b = (a, L')" by (cases b)
  show ?thesis using assms(1) assms(2)[of L' a] Inr b by simp
qed

lemma pinv0_bindR:
  assumes "pinv0 n Q m" and "\<And>L'. linv n L' \<Longrightarrow> Q L' \<Longrightarrow> pinv n Q2 (f L')"
  shows "pinv n Q2 (bindR m f)"
proof (cases m)
  case (Inl a)
  then show ?thesis using assms(1) by (cases a) simp
next
  case (Inr L')
  show ?thesis using assms(1) assms(2)[of L'] Inr by simp
qed

lemma pinv0_bindR0:
  assumes "pinv0 n Q m" and "\<And>L'. linv n L' \<Longrightarrow> Q L' \<Longrightarrow> pinv0 n Q2 (f L')"
  shows "pinv0 n Q2 (bindR m f)"
proof (cases m)
  case (Inl a)
  then show ?thesis using assms(1) by (cases a) simp
next
  case (Inr L')
  show ?thesis using assms(1) assms(2)[of L'] Inr by simp
qed

lemma pinv_weaken:
  assumes "pinv n Q r" and "\<And>a L'. linv n L' \<Longrightarrow> Q a L' \<Longrightarrow> Q2 a L'"
  shows "pinv n Q2 r"
proof (cases r)
  case (Inl a)
  then show ?thesis using assms(1) by (cases a) simp
next
  case (Inr b)
  obtain a L' where b: "b = (a, L')" by (cases b)
  show ?thesis using assms(1) assms(2)[of L' a] Inr b by simp
qed

lemma pinv0_weaken:
  assumes "pinv0 n Q r" and "\<And>L'. linv n L' \<Longrightarrow> Q L' \<Longrightarrow> Q2 L'"
  shows "pinv0 n Q2 r"
proof (cases r)
  case (Inl a)
  then show ?thesis using assms(1) by (cases a) simp
next
  case (Inr L')
  show ?thesis using assms(1) assms(2)[of L'] Inr by simp
qed

text \<open>states that agree on what the invariant reads\<close>

lemma linv_cong:
  "l_norm_trace L' = l_norm_trace L \<Longrightarrow> l_probs L' = l_probs L \<Longrightarrow> l_range L' = l_range L
   \<Longrightarrow> linv n L' = linv n L"
  by (simp add: linv_def einv_def)

lemma einv_cong:
  "l_norm_trace L' = l_norm_trace L \<Longrightarrow> l_probs L' = l_probs L \<Longrightarrow> einv n L' = einv n L"
  by (simp add: einv_def)

lemma NORMALIZE_pinv0:
  assumes "linv n L"
  shows "pinv0 n (\<lambda>L'. kTopValue \<le> l_range L' \<and> rc_rel L L') (NORMALIZE inp L)"
proof (cases "NORMALIZE inp L")
  case (Inl a)
  then show ?thesis using assms NORMALIZE_Inl[of inp L "fst a" "snd a"]
    by (cases a) (simp add: linv_def)
next
  case (Inr L')
  then show ?thesis using NORMALIZE_linv[OF assms Inr] NORMALIZE_Inr[OF Inr] by simp
qed

lemma isBit0_pinv:
  assumes L: "linv n L" and x: "x < nprobs n"
  shows "pinv n (\<lambda>b L1. linv n (UPDATE_0 x L1) \<and> linv n (UPDATE_1 x L1) \<and> rc_rel L L1)
           (isBit0 x inp L)"
proof -
  let ?L0 = "L\<lparr>l_ttt := l_probs L x\<rparr>"
  have L0: "linv n ?L0" using L by (simp add: linv_def einv_def)
  have t: "31 \<le> l_probs L x" "l_probs L x \<le> 2017"
    using L x by (auto simp: linv_def einv_def probs_ok_def)
  show ?thesis
  proof (cases "NORMALIZE inp ?L0")
    case (Inl a)
    then show ?thesis using NORMALIZE_pinv0[OF L0, of inp]
      by (cases a) (simp add: isBit0_def)
  next
    case (Inr L1)
    have n1: "linv n L1" "kTopValue \<le> l_range L1" using NORMALIZE_linv[OF L0 Inr] by auto
    have f1: "l_probs L1 = l_probs L" "l_ttt L1 = l_probs L x" "rc_rel L L1"
      using Inr by (auto simp: NORMALIZE_def rc_rel_def split: if_splits)
    let ?L2 = "L1\<lparr>l_bound := drop_bit kNumBitModelTotalBits (l_range L1) * l_ttt L1\<rparr>"
    have r: "0x1000000 \<le> l_range L1" using n1 by (simp add: lzma_consts)
    note bb = bit_bound_arith[OF r t]
    note pu = prob_update_arith[OF t]
    have pk: "probs_ok n (l_probs L)" using L by (simp add: linv_def einv_def)
    have u0: "linv n (UPDATE_0 x ?L2)"
      using n1 f1 bb pu pk
      by (auto simp: linv_def einv_def UPDATE_0_def lzma_consts probs_ok_def)
    have u1: "linv n (UPDATE_1 x ?L2)"
      using n1 f1 bb pu pk
      by (auto simp: linv_def einv_def UPDATE_1_def lzma_consts probs_ok_def)
    have l2: "linv n ?L2" using n1 by (simp add: linv_def einv_def)
    have "rc_rel L ?L2" using f1 by (simp add: rc_rel_def)
    then show ?thesis using Inr u0 u1 l2 by (simp add: isBit0_def Let_def)
  qed
qed

lemma GET_BIT2_pinv:
  assumes L: "linv n L" and x: "x < nprobs n"
  shows "pinv n (\<lambda>r L'. rc_rel L L' \<and> snd r = (if fst r then i + i + 1 else i + i))
           (GET_BIT2 x i inp L)"
  unfolding GET_BIT2_def
  apply (rule pinv_bindR[OF isBit0_pinv[OF L x]])
  apply (auto simp: rc_rel_def UPDATE_0_def UPDATE_1_def)
  done

lemma GET_BIT_pinv:
  assumes L: "linv n L" and x: "x < nprobs n"
  shows "pinv n (\<lambda>i' L'. rc_rel L L' \<and> (i' = i + i \<or> i' = i + i + 1)) (GET_BIT x i inp L)"
  unfolding GET_BIT_def
  apply (rule pinv_bindR[OF GET_BIT2_pinv[OF L x]])
  apply (auto split: if_splits)
  done

subsection \<open>Bit trees\<close>

lemma double_unat:
  fixes i :: u32
  assumes "unat i < 65536" and "i' = i + i \<or> i' = i + i + 1"
  shows "unat i' = 2 * unat i \<or> unat i' = 2 * unat i + 1"
  using assms by (auto simp: unat_word_ariths)

lemma tree_loop_pinv:
  assumes some: "tree_loop probs lim i inp L = Some r"
      and pre: "linv n L" "0 < i" "i < lim" "unat lim \<le> 65536" "probs + unat lim \<le> nprobs n"
  shows "pinv n (\<lambda>i' L'. rc_rel L L' \<and> lim \<le> i' \<and> unat i' < 2 * unat lim) r"
proof -
  have "linv n L \<longrightarrow> 0 < i \<longrightarrow> i < lim \<longrightarrow> unat lim \<le> 65536 \<longrightarrow> probs + unat lim \<le> nprobs n \<longrightarrow>
        pinv n (\<lambda>i' L'. rc_rel L L' \<and> lim \<le> i' \<and> unat i' < 2 * unat lim) r"
  proof (rule tree_loop.raw_induct[where P = "\<lambda>probs lim i inp L r.
           linv n L \<longrightarrow> 0 < i \<longrightarrow> i < lim \<longrightarrow> unat lim \<le> 65536 \<longrightarrow> probs + unat lim \<le> nprobs n \<longrightarrow>
           pinv n (\<lambda>i' L'. rc_rel L L' \<and> lim \<le> i' \<and> unat i' < 2 * unat lim) r", OF _ some],
         goal_cases)
    case (1 f probs lim i inp L r)
    note IH = 1(1) and eq = 1(2)
    show ?case
    proof (intro impI)
      assume L: "linv n L" and i0: "0 < i" and il: "i < lim" and lim: "unat lim \<le> 65536"
        and pb: "probs + unat lim \<le> nprobs n"
      have ui: "unat i < unat lim" "0 < unat i"
        using il i0 by (simp_all add: word_less_nat_alt)
      then have x: "probs + unat i < nprobs n" using pb by simp
      note g = GET_BIT_pinv[OF L x, of i inp]
      show "pinv n (\<lambda>i' L'. rc_rel L L' \<and> lim \<le> i' \<and> unat i' < 2 * unat lim) r"
      proof (cases "GET_BIT (probs + unat i) i inp L")
        case (Inl a)
        then have "r = Inl a" using eq by simp
        then show ?thesis using g Inl by (cases a) simp
      next
        case (Inr b)
        obtain i' L1 where b: "b = (i', L1)" by (cases b)
        have g1: "linv n L1" "rc_rel L L1" "i' = i + i \<or> i' = i + i + 1"
          using g Inr b by auto
        have ui': "unat i' = 2 * unat i \<or> unat i' = 2 * unat i + 1"
          using double_unat[OF _ g1(3)] ui lim by simp
        show ?thesis
        proof (cases "i' < lim")
          case True
          then have fe: "f probs lim i' inp L1 = Some r" using eq Inr b by simp
          have "0 < i'" using ui' ui by (auto simp: word_less_nat_alt)
          with IH[OF fe] g1 True lim pb
          have "pinv n (\<lambda>i'' L'. rc_rel L1 L' \<and> lim \<le> i'' \<and> unat i'' < 2 * unat lim) r"
            by simp
          then show ?thesis
            by (rule pinv_weaken) (use g1 in \<open>auto intro: rc_rel_trans\<close>)
        next
          case False
          then have "r = Inr (i', L1)" using eq Inr b by simp
          moreover have "lim \<le> i'" using False by (simp add: not_less)
          moreover have "unat i' < 2 * unat lim" using ui' ui by auto
          ultimately show ?thesis using g1 by simp
        qed
      qed
    qed
  qed
  then show ?thesis using pre by simp
qed

lemma run_tree_loop_pinv:
  assumes pre: "linv n L" "unat lim \<le> 65536" "1 < lim" "probs + unat lim \<le> nprobs n"
  shows "pinv n (\<lambda>i' L'. rc_rel L L' \<and> lim \<le> i' \<and> unat i' < 2 * unat lim)
           (run L (tree_loop probs lim 1 inp L))"
proof (cases "tree_loop probs lim 1 inp L")
  case None
  then show ?thesis using pre by (simp add: run_def linv_def)
next
  case (Some r)
  show ?thesis using tree_loop_pinv[OF Some pre(1) _ pre(3) pre(2) pre(4)] Some by simp
qed

lemma TREE_DECODE_pinv:
  assumes pre: "linv n L" "unat lim \<le> 65536" "1 < lim" "probs + unat lim \<le> nprobs n"
  shows "pinv n (\<lambda>v L'. rc_rel L L' \<and> unat v < unat lim) (TREE_DECODE probs lim inp L)"
  unfolding TREE_DECODE_def
proof (rule pinv_bindR[OF run_tree_loop_pinv[OF pre]], goal_cases)
  case (1 a L')
  then have "lim \<le> a" "unat a < 2 * unat lim" by auto
  then have "unat (a - lim) < unat lim" by (simp add: unat_sub word_le_nat_alt)
  then show ?case using 1 by simp
qed

lemma GET_BIT2_pinv_range:
  assumes L: "linv n L" and lo: "lo \<le> unat i" and hi: "unat i < hi" "hi \<le> 65536"
      and pb: "probs + hi \<le> nprobs n"
  shows "pinv n (\<lambda>r L'. rc_rel L L' \<and> 2 * lo \<le> unat (snd r) \<and> unat (snd r) < 2 * hi)
           (GET_BIT2 (probs + unat i) i inp L)"
proof -
  have x: "probs + unat i < nprobs n" using hi pb by simp
  show ?thesis
  proof (rule pinv_weaken[OF GET_BIT2_pinv[OF L x, of i inp]], goal_cases)
    case (1 a L')
    then have "snd a = i + i \<or> snd a = i + i + 1" by (auto split: if_splits)
    from double_unat[OF _ this] hi lo 1 show ?case by auto
  qed
qed

lemma GET_BIT_pinv_range:
  assumes L: "linv n L" and lo: "lo \<le> unat i" and hi: "unat i < hi" "hi \<le> 65536"
      and pb: "probs + hi \<le> nprobs n"
  shows "pinv n (\<lambda>i' L'. rc_rel L L' \<and> 2 * lo \<le> unat i' \<and> unat i' < 2 * hi)
           (GET_BIT (probs + unat i) i inp L)"
  unfolding GET_BIT_def
  by (rule pinv_bindR[OF GET_BIT2_pinv_range[OF assms]]) auto

lemma TREE_6_DECODE_pinv:
  assumes L: "linv n L" and pb: "probs + 64 \<le> nprobs n"
  shows "pinv n (\<lambda>v L'. rc_rel L L' \<and> unat v < 64) (TREE_6_DECODE probs inp L)"
  unfolding TREE_6_DECODE_def
proof (rule pinv_bindR[OF GET_BIT_pinv_range[OF L, of 1 1 2 probs inp]], goal_cases)
  case 1 show ?case by simp next
  case 2 show ?case by simp next
  case 3 show ?case by simp next
  case 4 show ?case using pb by simp next
  case (5 i1 L1)
  then have r1: "rc_rel L L1" by simp
  show ?case
  proof (simp, rule pinv_bindR[OF GET_BIT_pinv_range[of n L1 2 i1 4 probs inp]], goal_cases)
    case 1 show ?case using 5 by simp next
    case 2 show ?case using 5 by simp next
    case 3 show ?case using 5 by simp next
    case 4 show ?case by simp next
    case 5 show ?case using pb by simp next
    case (6 i2 L2)
    then have r2: "rc_rel L L2" using r1 by (auto intro: rc_rel_trans)
    show ?case
    proof (simp, rule pinv_bindR[OF GET_BIT_pinv_range[of n L2 4 i2 8 probs inp]], goal_cases)
      case 1 show ?case using 6 by simp next
      case 2 show ?case using 6 by simp next
      case 3 show ?case using 6 by simp next
      case 4 show ?case by simp next
      case 5 show ?case using pb by simp next
      case (6 i3 L3)
      then have r3: "rc_rel L L3" using r2 by (auto intro: rc_rel_trans)
      show ?case
      proof (simp, rule pinv_bindR[OF GET_BIT_pinv_range[of n L3 8 i3 16 probs inp]], goal_cases)
        case 1 show ?case using 6 by simp next
        case 2 show ?case using 6 by simp next
        case 3 show ?case using 6 by simp next
        case 4 show ?case by simp next
        case 5 show ?case using pb by simp next
        case (6 i4 L4)
        then have r4: "rc_rel L L4" using r3 by (auto intro: rc_rel_trans)
        show ?case
        proof (simp, rule pinv_bindR[OF GET_BIT_pinv_range[of n L4 16 i4 32 probs inp]], goal_cases)
          case 1 show ?case using 6 by simp next
          case 2 show ?case using 6 by simp next
          case 3 show ?case using 6 by simp next
          case 4 show ?case by simp next
          case 5 show ?case using pb by simp next
          case (6 i5 L5)
          then have r5: "rc_rel L L5" using r4 by (auto intro: rc_rel_trans)
          show ?case
          proof (simp, rule pinv_bindR[OF GET_BIT_pinv_range[of n L5 32 i5 64 probs inp]], goal_cases)
            case 1 show ?case using 6 by simp next
            case 2 show ?case using 6 by simp next
            case 3 show ?case using 6 by simp next
            case 4 show ?case by simp next
            case 5 show ?case using pb by simp next
            case (6 i6 L6)
            then have r6: "rc_rel L L6" using r5 by (auto intro: rc_rel_trans)
            have "64 \<le> unat i6" "unat i6 < 128" using 6 by auto
            then have "unat (i6 - 0x40) < 64"
              by (simp add: unat_sub word_le_nat_alt)
            then show ?case using 6 r6 by simp
          qed
        qed
      qed
    qed
  qed
qed

subsection \<open>The loops of a matched literal and of a distance\<close>

lemma matched_lit_loop_pinv:
  assumes some: "matched_lit_loop prob matchByte offs symbol inp L = Some r"
      and pre: "linv n L" "0 < symbol" "symbol < 0x100" "offs \<le> 0x100" "prob + 768 \<le> nprobs n"
  shows "pinv n (\<lambda>s L'. rc_rel L L') r"
proof -
  have "linv n L \<longrightarrow> 0 < symbol \<longrightarrow> symbol < 0x100 \<longrightarrow> offs \<le> 0x100 \<longrightarrow> prob + 768 \<le> nprobs n \<longrightarrow>
        pinv n (\<lambda>s L'. rc_rel L L') r"
  proof (rule matched_lit_loop.raw_induct[where P = "\<lambda>prob matchByte offs symbol inp L r.
           linv n L \<longrightarrow> 0 < symbol \<longrightarrow> symbol < 0x100 \<longrightarrow> offs \<le> 0x100 \<longrightarrow> prob + 768 \<le> nprobs n \<longrightarrow>
           pinv n (\<lambda>s L'. rc_rel L L') r", OF _ some], goal_cases)
    case (1 f prob matchByte offs symbol inp L r)
    note IH = 1(1) and eq = 1(2)
    let ?bit = "push_bit 1 matchByte AND offs"
    let ?x = "prob + unat offs + unat ?bit + unat symbol"
    show ?case
    proof (intro impI)
      assume L: "linv n L" and s0: "0 < symbol" and sl: "symbol < 0x100" and ol: "offs \<le> 0x100"
        and pb: "prob + 768 \<le> nprobs n"
      have us: "0 < unat symbol" "unat symbol < 256"
        using s0 sl by (simp_all add: word_less_nat_alt)
      have uo: "unat offs \<le> 256" using ol by (simp add: word_le_nat_alt)
      have "?bit \<le> offs" by (rule word_and_le1)
      then have ub: "unat ?bit \<le> 256" using uo by (simp add: word_le_nat_alt)
      have x: "?x < nprobs n" using us uo ub pb by simp
      note g = GET_BIT2_pinv[OF L x, of symbol inp]
      show "pinv n (\<lambda>s L'. rc_rel L L') r"
      proof (cases "GET_BIT2 ?x symbol inp L")
        case (Inl a)
        then have "r = Inl a" using eq by (simp add: Let_def)
        then show ?thesis using g Inl by (cases a) simp
      next
        case (Inr b)
        obtain bt s1 L1 where b: "b = ((bt, s1), L1)" by (cases b) auto
        have g1: "linv n L1" "rc_rel L L1" "s1 = symbol + symbol \<or> s1 = symbol + symbol + 1"
          using g Inr b by (auto split: if_splits)
        have us1: "unat s1 = 2 * unat symbol \<or> unat s1 = 2 * unat symbol + 1"
          using double_unat[OF _ g1(3)] us by simp
        let ?offs1 = "if bt then offs AND ?bit else offs AND NOT ?bit"
        have o1: "?offs1 \<le> 0x100"
          using word_and_le2[of offs ?bit] word_and_le2[of offs "NOT ?bit"] ol
          by (auto intro: order_trans)
        show ?thesis
        proof (cases "s1 < 0x100")
          case True
          then have fe: "f prob (push_bit 1 matchByte) ?offs1 s1 inp L1 = Some r"
            using eq Inr b True by (cases bt) (simp_all add: Let_def)
          have "0 < s1" using us1 us by (auto simp: word_less_nat_alt)
          with IH[OF fe] g1 True o1 pb
          have "pinv n (\<lambda>s L'. rc_rel L1 L') r" by simp
          then show ?thesis
            by (rule pinv_weaken) (use g1 in \<open>auto intro: rc_rel_trans\<close>)
        next
          case False
          then have "r = Inr (s1, L1)" using eq Inr b by (simp add: Let_def)
          then show ?thesis using g1 by simp
        qed
      qed
    qed
  qed
  then show ?thesis using pre by simp
qed

lemma run_matched_lit_loop_pinv:
  assumes pre: "linv n L" "prob + 768 \<le> nprobs n"
  shows "pinv n (\<lambda>s L'. rc_rel L L') (run L (matched_lit_loop prob matchByte 0x100 1 inp L))"
proof (cases "matched_lit_loop prob matchByte 0x100 1 inp L")
  case None
  then show ?thesis using pre by (simp add: run_def linv_def)
next
  case (Some r)
  show ?thesis using matched_lit_loop_pinv[OF Some pre(1) _ _ _ pre(2)] Some by simp
qed

lemma unat_pred: "(w :: u32) \<noteq> 0 \<Longrightarrow> unat (w - 1) = unat w - 1"
  by (rule unat_minus_one)

lemma spec_pos_loop_pinv:
  assumes "linv n L" "nb \<noteq> 0" "(unat i + 1) * 2 ^ unat nb \<le> 64" "prob + 32 \<le> nprobs n"
  shows "pinv n (\<lambda>d L'. rc_rel L L') (spec_pos_loop prob nb distance msk i inp L)"
  using assms
proof (induction prob nb distance msk i inp L rule: spec_pos_loop.induct)
  case (1 prob nb distance msk i inp L)
  note L = "1.prems"(1) and nb = "1.prems"(2) and ib = "1.prems"(3) and pb = "1.prems"(4)
  have unb: "1 \<le> unat nb" using nb by (simp add: unat_eq_zero Suc_le_eq unat_gt_0)
  then have "2 * 1 \<le> (2::nat) ^ unat nb"
    using power_increasing[of 1 "unat nb" "2::nat"] by simp
  then have "(unat i + 1) * 2 \<le> (unat i + 1) * 2 ^ unat nb"
    by (intro mult_le_mono2) simp
  then have ui: "unat i < 32" using ib by simp
  have x: "prob + unat i < nprobs n" using ui pb by simp
  note g = GET_BIT2_pinv[OF L x, of i inp]
  show ?case
  proof (cases "GET_BIT2 (prob + unat i) i inp L")
    case (Inl a)
    then show ?thesis using g by (cases a) (simp add: spec_pos_loop.simps[of prob nb distance msk i])
  next
    case (Inr b)
    obtain bt i1 L1 where b: "b = ((bt, i1), L1)" by (cases b) auto
    have g1: "linv n L1" "rc_rel L L1" "i1 = i + i \<or> i1 = i + i + 1"
      using g Inr b by (auto split: if_splits)
    have ui1: "unat i1 = 2 * unat i \<or> unat i1 = 2 * unat i + 1"
      using double_unat[OF _ g1(3)] ui by simp
    show ?thesis
    proof (cases "nb - 1 \<noteq> 0")
      case True
      have e: "unat (nb - 1) = unat nb - 1" using nb by (rule unat_pred)
      have "(2::nat) ^ unat nb = 2 * 2 ^ (unat nb - 1)"
        using unb by (cases "unat nb") simp_all
      then have "(unat i1 + 1) * 2 ^ unat (nb - 1) \<le> (unat i + 1) * 2 ^ unat nb"
        using ui1 e by auto
      then have ib1: "(unat i1 + 1) * 2 ^ unat (nb - 1) \<le> 64" using ib by simp
      have "pinv n (\<lambda>d L'. rc_rel L1 L')
              (spec_pos_loop prob (nb - 1) (if bt then distance OR msk else distance)
                 (push_bit 1 msk) i1 inp L1)"
        using "1.IH"[OF Inr b[symmetric] refl refl refl refl True g1(1) True ib1 pb] .
      then have "pinv n (\<lambda>d L'. rc_rel L L')
              (spec_pos_loop prob (nb - 1) (if bt then distance OR msk else distance)
                 (push_bit 1 msk) i1 inp L1)"
        by (rule pinv_weaken) (use g1 in \<open>auto intro: rc_rel_trans\<close>)
      then show ?thesis using Inr b True
        by (subst spec_pos_loop.simps) (simp add: Let_def)
    next
      case False
      then show ?thesis using Inr b g1
        by (subst spec_pos_loop.simps) (simp add: Let_def)
    qed
  qed
qed

lemma direct_bits_loop_pinv:
  assumes "linv n L"
  shows "pinv n (\<lambda>d L'. rc_rel L L') (direct_bits_loop nb distance inp L)"
  using assms
proof (induction nb distance inp L rule: direct_bits_loop.induct)
  case (1 nb distance inp L)
  note L = "1.prems"(1)
  note g = NORMALIZE_pinv0[OF L, of inp]
  show ?case
  proof (cases "NORMALIZE inp L")
    case (Inl a)
    then show ?thesis using g by (cases a) (simp add: direct_bits_loop.simps[of nb distance inp L])
  next
    case (Inr L1)
    have g1: "linv n L1" "kTopValue \<le> l_range L1" "rc_rel L L1" using g Inr by auto
    let ?L2 = "L1\<lparr>l_range := drop_bit 1 (l_range L1)\<rparr>"
    let ?L3 = "?L2\<lparr>l_code := l_code ?L2 - l_range ?L2\<rparr>"
    let ?t = "0 - drop_bit 31 (l_code ?L3)"
    let ?d1 = "push_bit 1 distance + (?t + 1)"
    let ?L4 = "?L3\<lparr>l_code := l_code ?L3 + (l_range ?L3 AND ?t)\<rparr>"
    have "16777216 \<le> unat (l_range L1)" using g1(2) by (simp add: lzma_consts word_le_nat_alt)
    then have "65536 \<le> unat (drop_bit 1 (l_range L1))"
      by (simp add: unat_drop_bit_eq drop_bit_eq_div unat_div)
    then have rg: "0x10000 \<le> drop_bit 1 (l_range L1)" by (simp add: word_le_nat_alt)
    have l4: "linv n ?L4" using g1(1) rg by (simp add: linv_def einv_def)
    have r4: "rc_rel L ?L4" using g1(3) by (simp add: rc_rel_def)
    show ?thesis
    proof (cases "nb - 1 \<noteq> 0")
      case True
      have "pinv n (\<lambda>d L'. rc_rel ?L4 L') (direct_bits_loop (nb - 1) ?d1 inp ?L4)"
        using "1.IH"[OF Inr refl refl refl refl refl refl True l4] .
      then have "pinv n (\<lambda>d L'. rc_rel L L') (direct_bits_loop (nb - 1) ?d1 inp ?L4)"
        by (rule pinv_weaken) (use r4 in \<open>auto intro: rc_rel_trans\<close>)
      then show ?thesis using Inr True
        by (subst direct_bits_loop.simps) (simp add: Let_def)
    next
      case False
      then show ?thesis using Inr l4 r4
        by (subst direct_bits_loop.simps) (simp add: Let_def)
    qed
  qed
qed

subsection \<open>Lengths\<close>

lemma nprobs_ge: "1846 + 768 \<le> nprobs n"
proof -
  have "(1::nat) \<le> 2 ^ n" by simp
  then have "768 * 1 \<le> (768::nat) * 2 ^ n" by (intro mult_le_mono2)
  then show ?thesis by (simp add: nprobs_def)
qed

lemma dic_read_pinv: "linv n L \<Longrightarrow> pinv n (\<lambda>v L'. L' = L) (dic_read i L)"
  by (simp add: dic_read_def linv_def)

lemma dic_write_pinv0:
  "linv n L \<Longrightarrow> pinv0 n (\<lambda>L'. L' = L\<lparr>l_dic := (l_dic L)[unat i := v]\<rparr>) (dic_write i v L)"
  by (simp add: dic_write_def linv_def einv_def)

lemma posState_shift:
  fixes ps :: u32
  assumes "unat ps \<le> 15"
  shows "unat (push_bit 3 ps) = 8 * unat ps" "unat (push_bit 4 ps) = 16 * unat ps"
  using assms by (simp_all add: push_bit_eq_mult unat_word_ariths)

lemma decode_len_pinv0:
  assumes L: "linv n L" and pb: "prob + 514 \<le> nprobs n" and ps: "unat posState \<le> 15"
  shows "pinv0 n (\<lambda>L'. dic_rel L L' \<and> l_state L' = l_state L) (decode_len prob posState inp L)"
  unfolding decode_len_def
  apply (rule pinv_bindR0[OF isBit0_pinv[OF L]])
  subgoal using pb by (simp add: lzma_consts)
  apply (simp only: split_conv)
  apply (rule pinv_bindR0[where Q = "\<lambda>t L1. dic_rel L L1 \<and> l_state L1 = l_state L \<and>
            fst t + unat (snd (snd t)) \<le> nprobs n \<and> 1 < snd (snd t) \<and> unat (snd (snd t)) \<le> 65536"])
  subgoal for b L1
    apply (cases b)
    subgoal using pb ps posState_shift[OF ps]
      by (simp add: lzma_consts rc_rel_def dic_rel_def UPDATE_0_def)
    subgoal
      apply (simp add: Let_def)
      apply (rule pinv_bindR[OF isBit0_pinv])
      subgoal by simp
      subgoal using pb by (simp add: lzma_consts)
      subgoal for b2 L2 using pb ps posState_shift[OF ps]
        by (auto simp add: lzma_consts rc_rel_def dic_rel_def UPDATE_0_def UPDATE_1_def)
      done
    done
  subgoal for b L1 t L2
    apply (cases t)
    apply (simp only: split_conv)
    apply (rule pinv_bindR0[OF TREE_DECODE_pinv])
    apply (auto simp: rc_rel_def dic_rel_def linv_def einv_def)
    done
  done

subsection \<open>Literals and repeated matches\<close>

lemma lit_prob_pinv:
  assumes L: "linv n L" and E: "lit_ok n E"
  shows "pinv n (\<lambda>p L'. L' = L \<and> p + 768 \<le> nprobs n) (lit_prob E L)"
proof (cases "e_checkDicSize E \<noteq> 0 \<or> l_processedPos L \<noteq> 0")
  case True
  show ?thesis
    unfolding lit_prob_def
    apply (simp only: True if_True)
    apply (rule pinv_bindR[OF dic_read_pinv[OF L]])
    subgoal for v L'
      using E[unfolded lit_ok_def, rule_format, of "l_processedPos L" v] L
      by (simp add: nprobs_def lzma_consts)
    done
next
  case False
  then show ?thesis using L nprobs_ge[of n] by (auto simp: lit_prob_def lzma_consts)
qed

lemma linv_state_upd [simp]: "linv n (L\<lparr>l_state := s\<rparr>) = linv n L"
  by (simp add: linv_def einv_def)

lemma linv_frame_upd [simp]:
  "linv n (L\<lparr>l_rep0 := a\<rparr>) = linv n L"
  "linv n (L\<lparr>l_rep1 := a\<rparr>) = linv n L"
  "linv n (L\<lparr>l_rep2 := a\<rparr>) = linv n L"
  "linv n (L\<lparr>l_rep3 := a\<rparr>) = linv n L"
  "linv n (L\<lparr>l_dic := d\<rparr>) = linv n L"
  "linv n (L\<lparr>l_dicPos := p\<rparr>) = linv n L"
  "linv n (L\<lparr>l_processedPos := a\<rparr>) = linv n L"
  "linv n (L\<lparr>l_len := q\<rparr>) = linv n L"
  by (simp_all add: linv_def einv_def)

lemma einv_frame_upd [simp]:
  "einv n (L\<lparr>l_state := a\<rparr>) = einv n L"
  "einv n (L\<lparr>l_rep0 := a\<rparr>) = einv n L"
  "einv n (L\<lparr>l_rep1 := a\<rparr>) = einv n L"
  "einv n (L\<lparr>l_rep2 := a\<rparr>) = einv n L"
  "einv n (L\<lparr>l_rep3 := a\<rparr>) = einv n L"
  "einv n (L\<lparr>l_dic := d\<rparr>) = einv n L"
  "einv n (L\<lparr>l_dicPos := p\<rparr>) = einv n L"
  "einv n (L\<lparr>l_processedPos := a\<rparr>) = einv n L"
  "einv n (L\<lparr>l_len := q\<rparr>) = einv n L"
  by (simp_all add: einv_def)

lemma decode_literal_pinv0:
  assumes L: "linv n L" and E: "lit_ok n E"
  shows "pinv0 n (\<lambda>L'. True) (decode_literal E L)"
  unfolding decode_literal_def
  apply (rule pinv_bindR0[OF lit_prob_pinv[OF L E]])
  apply (simp only: split_conv)
  apply (rule pinv_bindR0[where Q = "\<lambda>s L1. True"])
  subgoal for p L1
    apply (cases "l_state L < of_nat kNumLitStates")
    subgoal
      apply (simp only: if_True Let_def)
      apply (rule pinv_weaken[OF run_tree_loop_pinv])
      apply (auto simp: linv_def einv_def)
      done
    subgoal
      apply (simp only: if_False)
      apply (rule pinv_bindR[OF dic_read_pinv])
      apply simp
      apply (simp only: split_conv Let_def)
      apply (rule pinv_weaken[OF run_matched_lit_loop_pinv])
      apply (auto simp: linv_def einv_def)
      done
    done
  subgoal for p L1 s L2
    apply (simp only: split_conv)
    apply (rule pinv0_bindR0[OF dic_write_pinv0])
    apply (auto simp: linv_def einv_def)
    done
  done

lemma state_shift:
  fixes st :: u32
  assumes "st < 12"
  shows "unat st < 12" "unat (push_bit 4 st) = 16 * unat st"
  using assms by (simp_all add: push_bit_eq_mult unat_word_ariths word_less_nat_alt)

lemma decode_rep_pinv:
  assumes L: "linv n L" and st: "l_state L < 12" and ps: "unat posState \<le> 15"
  shows "pinv n (\<lambda>c L'. l_state L' < 12) (decode_rep E posState L)"
proof -
  note s = state_shift[OF st]
  note ng = nprobs_ge[of n]
  have [simp]: "\<And>x L'. l_state (UPDATE_0 x L') = l_state L'" "\<And>x L'. l_state (UPDATE_1 x L') = l_state L'"
    by (simp_all add: UPDATE_0_def UPDATE_1_def)
  show ?thesis
    unfolding decode_rep_def
    apply (cases "e_checkDicSize E = 0 \<and> l_processedPos L = 0")
    subgoal using L by (simp add: linv_def)
    apply (simp only: if_False)
    apply (rule pinv_bindR[OF isBit0_pinv[OF L]])
    subgoal using s ng by (simp add: lzma_consts)
    subgoal for b L1
      apply (simp only: split_conv)
      apply (cases b)
      subgoal
        apply (simp add: Let_def)
        apply (rule pinv_bindR[OF isBit0_pinv])
        subgoal by (simp add: rc_rel_def)
        subgoal using s ng ps by (simp add: lzma_consts rc_rel_def)
        subgoal for b2 L2
          apply (cases b2)
          subgoal
            apply (simp add: Let_def)
            apply (rule pinv_bindR[OF dic_read_pinv])
            apply simp
            apply simp
            apply (rule pinv0_bindR[OF dic_write_pinv0])
            apply simp
            apply (auto simp: linv_def einv_def lzma_consts)
            done
          subgoal
            by (auto simp: linv_def einv_def lzma_consts Let_def)
          done
        done
      subgoal
        apply (simp add: Let_def)
        apply (rule pinv_bindR[OF isBit0_pinv])
        subgoal by (simp add: rc_rel_def)
        subgoal using s ng by (simp add: lzma_consts rc_rel_def)
        subgoal for b2 L2
          apply (simp only: split_conv)
          apply (rule pinv_bindR[where Q = "\<lambda>d L'. True"])
          subgoal
            apply (cases b2)
            subgoal by (simp add: Let_def rc_rel_def)
            subgoal
              apply (simp add: Let_def)
              apply (rule pinv_bindR[OF isBit0_pinv])
              subgoal by (simp add: rc_rel_def)
              subgoal using s ng by (simp add: lzma_consts rc_rel_def)
              subgoal by (auto simp: Let_def rc_rel_def)
              done
            done
          subgoal by (auto simp: linv_def einv_def lzma_consts)
          done
        done
      done
    done
qed

subsection \<open>Distances\<close>

lemma posSlot_cases:
  fixes v :: u32
  assumes "4 \<le> v" "v < 14"
  shows "v = 4 \<or> v = 5 \<or> v = 6 \<or> v = 7 \<or> v = 8 \<or> v = 9 \<or> v = 10 \<or> v = 11 \<or> v = 12 \<or> v = 13"
proof -
  have "4 \<le> unat v" "unat v < 14" using assms by (simp_all add: word_le_nat_alt word_less_nat_alt)
  then have "unat v \<in> {4..<14}" by simp
  then have "unat v \<in> set [4..<14]" by (simp only: set_upt)
  then have "of_nat (unat v) \<in> set (map of_nat [4..<14] :: u32 list)"
    unfolding set_map by (rule imageI)
  then show ?thesis by (simp add: upt_rec)
qed

lemma specpos_arith:
  fixes v :: u32
  assumes "4 \<le> v" "v < 14"
  shows "drop_bit 1 v - 1 \<noteq> 0"
    and "(unat (1 :: u32) + 1) * 2 ^ unat (drop_bit 1 v - 1) \<le> 64"
    and "SpecPos + unat (push_bit (unat (drop_bit 1 v - 1)) (2 OR (v AND 1))) - unat v - 1 + 32
           \<le> nprobs n"
  using posSlot_cases[OF assms] nprobs_ge[of n]
  by (elim disjE; simp add: lzma_consts)+

lemma lenstate_arith:
  fixes x :: u32
  shows "unat (push_bit 6 (if x < 4 then x else 4 - 1)) \<le> 192"
proof (cases "x < 4")
  case True
  then have "unat x < 4" by (simp add: word_less_nat_alt)
  then show ?thesis using True by (simp add: push_bit_eq_mult unat_word_ariths)
next
  case False
  then show ?thesis by simp
qed

lemma decode_dist_value_pinv:
  assumes L: "linv n L"
  shows "pinv n (\<lambda>d L'. d = None \<longrightarrow> l_state L' = l_state L - 12) (decode_dist_value E L)"
  unfolding decode_dist_value_def Let_def
  apply (rule pinv_bindR[OF TREE_6_DECODE_pinv[OF L]])
  subgoal
    using lenstate_arith[of "l_len L"] nprobs_ge[of n] by (simp add: lzma_consts split: if_splits)
  subgoal for v L1
    apply (simp only: split_conv)
    apply (cases "of_nat kStartPosModelIndex \<le> v")
     prefer 2
    subgoal by simp
    apply (simp only: if_True)
    apply (cases "v < of_nat kEndPosModelIndex")
    subgoal
      apply (simp only: if_True)
      apply (rule pinv_bindR[OF spec_pos_loop_pinv])
      subgoal by simp
      subgoal using specpos_arith(1)[of v] by (simp add: lzma_consts)
      subgoal using specpos_arith(2)[of v] by (simp add: lzma_consts)
      subgoal using specpos_arith(3)[of v n] by (simp add: lzma_consts)
      subgoal by simp
      done
    subgoal
      apply (simp only: if_False)
      apply (rule pinv_bindR[OF direct_bits_loop_pinv])
      subgoal by simp
      subgoal for d L2
        apply (simp only: split_conv)
        apply (rule pinv_bindR[OF GET_BIT2_pinv_range[where lo = 1 and hi = 2]])
        subgoal by simp
        subgoal by simp
        subgoal by simp
        subgoal by simp
        subgoal using nprobs_ge[of n] by (simp add: lzma_consts)
        subgoal for r3 L3
          apply (cases r3)
          apply (simp only: split_conv snd_conv)
          apply (rule pinv_bindR[OF GET_BIT2_pinv_range[where lo = 2 and hi = 4]])
          subgoal by simp
          subgoal by simp
          subgoal by simp
          subgoal by simp
          subgoal using nprobs_ge[of n] by (simp add: lzma_consts)
          subgoal for b3 i3 r4 L4
            apply (cases r4)
            apply (simp only: split_conv snd_conv)
            apply (rule pinv_bindR[OF GET_BIT2_pinv_range[where lo = 4 and hi = 8]])
            subgoal by simp
            subgoal by simp
            subgoal by simp
            subgoal by simp
            subgoal using nprobs_ge[of n] by (simp add: lzma_consts)
            subgoal for b4 i4 r5 L5
              apply (cases r5)
              apply (simp only: split_conv snd_conv)
              apply (rule pinv_bindR[OF GET_BIT2_pinv_range[where lo = 8 and hi = 16]])
              subgoal by simp
              subgoal by simp
              subgoal by simp
              subgoal by simp
              subgoal using nprobs_ge[of n] by (simp add: lzma_consts)
              subgoal for b5 i5 r6 L6
                apply (cases r6)
                apply (simp add: rc_rel_def kNumStates_def)
                done
              done
            done
          done
        done
      done
    done
  done

lemma check_distance_pinv0:
  assumes L: "linv n L"
  shows "pinv0 n (\<lambda>L'. l_state L' < 12) (check_distance E distance L)"
  using L by (simp add: check_distance_def Let_def lzma_consts linv_einv)

lemma decode_distance_pinv:
  assumes L: "linv n L" and st: "12 \<le> l_state L" "l_state L < 24"
  shows "pinv n (\<lambda>b L'. l_state L' < 12) (decode_distance E L)"
  unfolding decode_distance_def
  apply (rule pinv_bindR[OF decode_dist_value_pinv[OF L]])
  subgoal for d L1
    apply (cases d)
    subgoal using st by (simp add: word_less_nat_alt word_le_nat_alt unat_sub)
    subgoal
      apply (simp only: split_conv option.case)
      apply (rule pinv0_bindR[OF check_distance_pinv0])
       apply simp
      apply simp
      done
    done
  done

subsection \<open>The copy of a match\<close>

lemma rcs_rel_linv: "rcs_rel L L' \<Longrightarrow> linv n L \<Longrightarrow> linv n L'"
  by (simp add: rcs_rel_def linv_def einv_def)

lemma rcs_rel_pinv0:
  assumes "rcs_rel L (resl0 r)" and "linv n L"
  shows "pinv0 n (\<lambda>L'. l_state L' = l_state L) r"
proof (cases r)
  case (Inl a)
  then show ?thesis using assms by (cases a) (simp add: rcs_rel_def linv_def einv_def)
next
  case (Inr b)
  then show ?thesis using assms by (simp add: rcs_rel_def linv_def einv_def)
qed

lemma copy_fwd_loop_frame: "rcs_rel L (resl0 (copy_fwd_loop dest lim src L))"
proof (induction dest lim src L rule: copy_fwd_loop.induct)
  case (1 dest lim src L)
  show ?case
  proof (cases "unat (dest + src) < length (l_dic L) \<and> unat dest < length (l_dic L)")
    case False
    then show ?thesis
      by (subst copy_fwd_loop.simps) (auto simp: dic_read_def dic_write_def rcs_rel_def)
  next
    case True
    let ?L2 = "L\<lparr>l_dic := (l_dic L)[unat dest := l_dic L ! unat (dest + src)]\<rparr>"
    have r: "dic_read (dest + src) L = Inr (l_dic L ! unat (dest + src), L)"
      using True by (simp add: dic_read_def)
    have w: "dic_write dest (l_dic L ! unat (dest + src)) L = Inr ?L2"
      using True by (simp add: dic_write_def)
    show ?thesis
    proof (cases "dest + 1 \<noteq> lim")
      case True
      from 1[OF r refl w True] show ?thesis
        by (subst copy_fwd_loop.simps) (simp add: r w True rcs_rel_def)
    next
      case False
      then show ?thesis
        by (subst copy_fwd_loop.simps) (simp add: r w rcs_rel_def)
    qed
  qed
qed

lemma copy_wrap_loop_frame: "rcs_rel L (resl0 (copy_wrap_loop E p curLen L))"
proof (induction E p curLen L rule: copy_wrap_loop.induct)
  case (1 E p curLen L)
  show ?case
  proof (cases "unat p < length (l_dic L) \<and> unat (l_dicPos L) < length (l_dic L)")
    case False
    then show ?thesis
      by (subst copy_wrap_loop.simps) (auto simp: dic_read_def dic_write_def rcs_rel_def)
  next
    case True
    let ?L2 = "L\<lparr>l_dic := (l_dic L)[unat (l_dicPos L) := l_dic L ! unat p]\<rparr>"
    let ?L3 = "?L2\<lparr>l_dicPos := l_dicPos ?L2 + 1\<rparr>"
    let ?p1 = "if p + 1 = e_dicBufSize E then 0 else p + 1"
    have r: "dic_read p L = Inr (l_dic L ! unat p, L)"
      using True by (simp add: dic_read_def)
    have w: "dic_write (l_dicPos L) (l_dic L ! unat p) L = Inr ?L2"
      using True by (simp add: dic_write_def)
    show ?thesis
    proof (cases "curLen - 1 \<noteq> 0")
      case True
      from 1[OF r refl w refl refl True] show ?thesis
        by (subst copy_wrap_loop.simps) (simp add: r w True rcs_rel_def Let_def)
    next
      case False
      then show ?thesis
        by (subst copy_wrap_loop.simps) (simp add: r w rcs_rel_def Let_def)
    qed
  qed
qed

lemma rcs_rel_upd [simp]:
  "rcs_rel L L"
  "rcs_rel L (L'\<lparr>l_len := a\<rparr>) = rcs_rel L L'"
  "rcs_rel L (L'\<lparr>l_processedPos := a\<rparr>) = rcs_rel L L'"
  "rcs_rel L (L'\<lparr>l_dicPos := p\<rparr>) = rcs_rel L L'"
  "rcs_rel L (L'\<lparr>l_dic := d\<rparr>) = rcs_rel L L'"
  by (simp_all add: rcs_rel_def)

lemma copy_match_frame: "rcs_rel L (resl0 (copy_match E L))"
proof -
  have t: "\<And>A B C. rcs_rel A B \<Longrightarrow> rcs_rel B C \<Longrightarrow> rcs_rel A C"
    by (simp add: rcs_rel_def)
  have fwd: "\<And>L' d l s. rcs_rel L L' \<Longrightarrow> rcs_rel L (resl0 (copy_fwd_loop d l s L'))"
    by (rule t[OF _ copy_fwd_loop_frame])
  have wrap: "\<And>L' p l. rcs_rel L L' \<Longrightarrow> rcs_rel L (resl0 (copy_wrap_loop E p l L'))"
    by (rule t[OF _ copy_wrap_loop_frame])
  show ?thesis
    unfolding copy_match_def Let_def
    by (auto intro!: fwd wrap)
qed

lemma copy_match_pinv0:
  "linv n L \<Longrightarrow> pinv0 n (\<lambda>L'. l_state L' = l_state L) (copy_match E L)"
  by (rule rcs_rel_pinv0[OF copy_match_frame])

lemma match_tail_pinv:
  assumes L: "linv n L" and st: "l_state L < 24" and pb: "prob + 514 \<le> nprobs n"
      and ps: "unat posState \<le> 15"
  shows "pinv n (\<lambda>b L'. l_state L' < 12) (match_tail E prob posState L)"
  unfolding match_tail_def
  apply (rule pinv0_bindR[OF decode_len_pinv0[OF L pb ps]])
  subgoal for L1
    apply (rule pinv_bindR[where Q = "\<lambda>b L'. l_state L' < 12"])
    subgoal
      apply (cases "of_nat kNumStates \<le> l_state L1")
      subgoal
        apply (simp only: if_True)
        apply (rule decode_distance_pinv)
        using st by (simp_all add: lzma_consts)
      subgoal
        apply (simp only: if_False)
        apply (simp add: lzma_consts not_le)
        done
      done
    subgoal for brk L2
      apply (simp only: split_conv)
      apply (cases brk)
      subgoal by simp
      subgoal
        apply (simp only: if_False)
        apply (rule pinv0_bindR[OF copy_match_pinv0])
         apply simp
        apply simp
        done
      done
    done
  done

subsection \<open>One symbol, and the loop of \<^verbatim>\<open>DecodeReal\<close>\<close>

lemma lit_state_lt:
  fixes st :: u32
  assumes "st < 12"
  shows "(if st < 4 then 0 else if st < 10 then st - 3 else st - 6) < 12"
proof -
  have a: "unat st < 12" using assms by (simp add: word_less_nat_alt)
  show ?thesis
  proof (cases "st < 4")
    case True then show ?thesis by simp
  next
    case False
    then have b: "4 \<le> unat st" by (simp add: word_less_nat_alt)
    then have "3 \<le> st" "6 \<le> st \<or> st < 10" by (auto simp: word_le_nat_alt word_less_nat_alt)
    then show ?thesis using a b False
      by (auto simp: word_less_nat_alt word_le_nat_alt unat_sub)
  qed
qed

lemma decode_literal_pinv0_state:
  assumes L: "linv n L" and E: "lit_ok n E" and st: "l_state L < 12"
  shows "pinv0 n (\<lambda>L'. l_state L' < 12) (decode_literal E L)"
proof (cases "decode_literal E L")
  case (Inl a)
  then show ?thesis using decode_literal_pinv0[OF L E] by (cases a) simp
next
  case (Inr L')
  from decode_literal_state[OF Inr] lit_state_lt[OF st] have "l_state L' < 12" by simp
  then show ?thesis using decode_literal_pinv0[OF L E] Inr by simp
qed

lemma posState_le:
  fixes x m :: u32
  assumes "unat m \<le> 15"
  shows "unat (x AND m) \<le> 15"
proof -
  have "x AND m \<le> m" by (rule word_and_le1)
  then show ?thesis using assms by (simp add: word_le_nat_alt)
qed

lemma state_plus:
  fixes st :: u32
  assumes "st < 12"
  shows "st + 12 < 24" "12 \<le> st + 12"
  using assms by (simp_all add: word_less_nat_alt word_le_nat_alt unat_word_ariths)

lemma decode_symbol_pinv:
  assumes L: "linv n L" and st: "l_state L < 12" and E: "env_ok n E"
  shows "pinv n (\<lambda>b L'. l_state L' < 12) (decode_symbol E L)"
proof -
  note s = state_shift[OF st]
  note ng = nprobs_ge[of n]
  have ps: "unat (l_processedPos L AND e_pbMask E) \<le> 15"
    using E by (simp add: env_ok_def posState_le)
  have lit: "lit_ok n E" using E by (simp add: env_ok_def)
  have [simp]: "\<And>x L'. l_state (UPDATE_0 x L') = l_state L'" "\<And>x L'. l_state (UPDATE_1 x L') = l_state L'"
    by (simp_all add: UPDATE_0_def UPDATE_1_def)
  show ?thesis
    unfolding decode_symbol_def Let_def
    apply (rule pinv_bindR[OF isBit0_pinv[OF L]])
    subgoal using s ps ng by (simp add: lzma_consts)
    subgoal for b L1
      apply (simp only: split_conv)
      apply (cases b)
      subgoal
        apply (simp only: if_True)
        apply (rule pinv0_bindR[OF decode_literal_pinv0_state])
        subgoal by simp
        subgoal by (rule lit)
        subgoal using st by (simp add: rc_rel_def)
        subgoal by simp
        done
      subgoal
        apply (simp only: if_False)
        apply (rule pinv_bindR[OF isBit0_pinv])
        subgoal by simp
        subgoal using s ng by (simp add: lzma_consts rc_rel_def)
        subgoal for b2 L2
          apply (simp only: split_conv)
          apply (cases b2)
          subgoal
            apply (simp only: if_True)
            apply (rule match_tail_pinv)
            subgoal by simp
            subgoal using state_plus[OF st] by (simp add: rc_rel_def lzma_consts)
            subgoal using ng by (simp add: lzma_consts)
            subgoal using ps by (simp add: rc_rel_def)
            done
          subgoal
            apply (simp only: if_False)
            apply (rule pinv_bindR[OF decode_rep_pinv])
            subgoal by simp
            subgoal using st by (simp add: rc_rel_def)
            subgoal using ps by (simp add: rc_rel_def)
            subgoal for cont L3
              apply (simp only: split_conv)
              apply (cases cont)
              subgoal by simp
              subgoal
                apply (simp only: if_False)
                apply (rule match_tail_pinv)
                subgoal by simp
                subgoal by (simp add: word_less_nat_alt)
                subgoal using ng by (simp add: lzma_consts)
                subgoal using ps by (simp add: rc_rel_def)
                done
              done
            done
          done
        done
      done
    done
qed

lemma DecodeReal_loop_pinv0:
  assumes some: "DecodeReal_loop E L = Some r"
      and pre: "linv n L" "l_state L < 12" and E: "env_ok n E"
  shows "pinv0 n (\<lambda>L'. l_state L' < 12) r"
proof -
  have "E = E \<longrightarrow> linv n L \<and> l_state L < 12 \<longrightarrow> pinv0 n (\<lambda>L'. l_state L' < 12) r"
  proof (rule DecodeReal_loop.raw_induct[where P = "\<lambda>E' L r. E' = E \<longrightarrow> linv n L \<and> l_state L < 12 \<longrightarrow> pinv0 n (\<lambda>L'. l_state L' < 12) r", OF _ some], intro impI, goal_cases)
    case (1 f E' L r)
    note IH = 1(1) and eq = 1(2)
    have E': "E' = E" using 1 by simp
    have L: "linv n L" "l_state L < 12" using 1 by simp_all
    from decode_symbol_pinv[OF L E] have ds: "pinv n (\<lambda>b L'. l_state L' < 12) (decode_symbol E L)" .
    show ?case
    proof (cases "decode_symbol E L")
      case (Inl a)
      then have "r = Inl a" using eq E' by simp
      then show ?thesis using ds Inl by (cases a) simp
    next
      case (Inr p)
      obtain brk L1 where p: "p = (brk, L1)" by (cases p)
      have L1: "linv n L1" "l_state L1 < 12" using ds Inr p by simp_all
      show ?thesis
      proof (cases "\<not> brk \<and> l_dicPos L1 < e_limit E \<and> l_buf L1 < e_bufLimit E")
        case True
        then have "f E L1 = Some r" using eq E' Inr p by simp
        from IH[OF this] L1 show ?thesis by simp
      next
        case False
        then have "r = Inr L1" using eq E' Inr p by auto
        then show ?thesis using L1 by simp
      qed
    qed
  qed
  then show ?thesis using pre by simp
qed

subsection \<open>The environment of a call of \<^verbatim>\<open>DecodeReal\<close>\<close>

lemma cres_simps [simp]:
  "cres P g (Inl (e, c)) = P c"
  "cres P g (Inr a) = P (g a)"
  by (simp_all add: cres_def)

lemma cres_bindR:
  assumes "cres P g m" and "\<And>a. P (g a) \<Longrightarrow> cres Q h (f a)" and "\<And>c. P c \<Longrightarrow> Q c"
  shows "cres Q h (bindR m f)"
proof (cases m)
  case (Inl a)
  then show ?thesis using assms(1) assms(3) by (cases a) simp
next
  case (Inr b)
  then show ?thesis using assms(1) assms(2)[of b] by simp
qed

lemma u32_le4_cases:
  fixes x :: u32
  assumes "unat x \<le> 4"
  shows "x = 0 \<or> x = 1 \<or> x = 2 \<or> x = 3 \<or> x = 4"
proof -
  have "unat x \<in> {0..<5}" using assms by simp
  then have "unat x \<in> set [0..<5]" by (simp only: set_upt)
  then have "of_nat (unat x) \<in> set (map of_nat [0..<5] :: u32 list)"
    unfolding set_map by (rule imageI)
  then show ?thesis by (simp add: upt_rec)
qed

lemma unat_mult_le: "unat ((a :: u32) * b) \<le> unat a * unat b"
  by (simp add: unat_word_ariths)

lemma unat_add_le: "unat ((a :: u32) + b) \<le> unat a + unat b"
  by (simp add: unat_word_ariths)

lemma unat_push_bit_le: "unat (push_bit l (x :: u32)) \<le> 2 ^ l * unat x"
proof -
  have "(2 ^ l :: u32) = of_nat (2 ^ l)" by simp
  then have "unat (2 ^ l :: u32) = (2 ^ l) mod 2 ^ 32" by (simp only: unat_of_nat) simp
  then have "unat (2 ^ l :: u32) \<le> 2 ^ l" by simp
  then have "unat x * unat (2 ^ l :: u32) \<le> unat x * 2 ^ l" by (rule mult_le_mono2)
  with unat_mult_le[of x "2 ^ l"] have "unat (x * 2 ^ l) \<le> unat x * 2 ^ l"
    by (rule order_trans)
  then show ?thesis
    by (simp add: push_bit_eq_mult mult.commute)
qed

lemma unat_drop_ucast_le: "unat (drop_bit k (ucast (b :: u8) :: u32)) \<le> 255 div 2 ^ k"
proof -
  have "unat b < 256" using unsigned_less[of b, where 'a = nat] by simp
  then have "unat b \<le> 255" by simp
  then have "unat b div 2 ^ k \<le> 255 div 2 ^ k" by (rule div_le_mono)
  moreover have "unat (ucast b :: u32) = unat b"
    using \<open>unat b < 256\<close> by (simp add: unsigned_ucast_eq take_bit_nat_eq_self)
  ultimately have "drop_bit k (unat (ucast b :: u32)) \<le> 255 div 2 ^ k"
    by (simp add: drop_bit_eq_div)
  then show ?thesis by (simp only: unat_drop_bit_eq)
qed

lemma lit_ok_arith:
  fixes pp m :: u32 and b :: u8
  assumes "768 * (2 ^ l * unat m + 255 div 2 ^ k) + 768 \<le> B"
  shows "unat (768 * (push_bit l (pp AND m) + drop_bit k (ucast b))) + 768 \<le> B"
proof -
  let ?x = "pp AND m" and ?y = "drop_bit k (ucast b) :: u32"
  have "?x \<le> m" by (rule word_and_le1)
  then have x: "unat ?x \<le> unat m" by (simp add: word_le_nat_alt)
  have y: "unat ?y \<le> 255 div 2 ^ k" by (rule unat_drop_ucast_le)
  have "unat (push_bit l ?x) \<le> 2 ^ l * unat m"
    using unat_push_bit_le[of l ?x] x by (meson mult_le_mono2 order_trans)
  then have "unat (push_bit l ?x + ?y) \<le> 2 ^ l * unat m + 255 div 2 ^ k"
    using unat_add_le[of "push_bit l ?x" ?y] y by linarith
  then have "unat (768 :: u32) * unat (push_bit l ?x + ?y) \<le> 768 * (2 ^ l * unat m + 255 div 2 ^ k)"
    by simp
  with unat_mult_le[of 768 "push_bit l ?x + ?y"] assms show ?thesis by linarith
qed

lemma env_of_ok:
  assumes "props_ok (m_properties c)"
  shows "env_ok (nlit c) (env_of limit bufLimit inp c)"
proof -
  obtain a b p where ab: "lc (m_properties c) = a" "lp (m_properties c) = b" "pb (m_properties c) = p"
    by simp
  have s: "unat a + unat b \<le> 4" and p: "unat p \<le> 4"
    using assms ab by (simp_all add: props_ok_def)
  have pm: "unat (push_bit (unat p) (1 :: u32) - 1) \<le> 15"
    using u32_le4_cases[OF p] by (elim disjE; simp)
  have "unat a \<le> 4" "unat b \<le> 4" using s by simp_all
  note ca = u32_le4_cases[OF this(1)] and cb = u32_le4_cases[OF this(2)]
  have "unat (768 * (push_bit (unat a) (pp AND (push_bit (unat b) 1 - 1)) +
             drop_bit (unat (8 - a)) (ucast v))) + 768 \<le> 768 * 2 ^ (unat a + unat b)"
    for pp :: u32 and v :: u8
    apply (rule lit_ok_arith)
    using ca cb s by (elim disjE; simp)
  then show ?thesis using pm ab
    by (simp add: env_ok_def lit_ok_def env_of_def nlit_def lzma_consts)
qed

subsection \<open>\<^verbatim>\<open>DecodeReal\<close> keeps the invariant of the decoder\<close>

lemma run_DecodeReal_loop_pinv0:
  assumes pre: "linv n L" "l_state L < 12" and E: "env_ok n E"
  shows "pinv0 n (\<lambda>L'. l_state L' < 12) (run L (DecodeReal_loop E L))"
proof (cases "DecodeReal_loop E L")
  case None
  then show ?thesis using pre by (simp add: run_def linv_def)
next
  case (Some r)
  show ?thesis using DecodeReal_loop_pinv0[OF Some pre E] Some by simp
qed

lemma DecodeReal_locals_pinv0:
  assumes pre: "linv n L" "l_state L < 12" and E: "env_ok n E"
  shows "pinv0 n (\<lambda>L'. l_state L' < 12)
           (bindR (run L (DecodeReal_loop E L)) (NORMALIZE inp))"
  apply (rule pinv0_bindR0[OF run_DecodeReal_loop_pinv0[OF pre E]])
  subgoal for L1
    apply (rule pinv0_weaken[OF NORMALIZE_pinv0])
     apply simp
    apply (simp add: rc_rel_def)
    done
  done

lemma DecodeReal_cres:
  assumes c: "run_inv c"
  shows "cres run_inv (\<lambda>c. c) (DecodeReal limit bufLimit inp c)"
proof -
  let ?E = "env_of limit bufLimit inp c" and ?L = "locals_of c"
  let ?n = "nlit c"
  have L: "linv ?n ?L" "l_state ?L < 12"
    using c by (auto simp: run_inv_def core_inv_def linv_def einv_def locals_of_def)
  have E: "env_ok ?n ?E" using c by (simp add: run_inv_def core_inv_def env_of_ok)
  note p = DecodeReal_locals_pinv0[OF L E, of inp]
  show ?thesis
  proof (cases "bindR (run ?L (DecodeReal_loop ?E ?L)) (NORMALIZE inp)")
    case (Inl a)
    obtain e L' where a: "a = (e, L')" by (cases a)
    have "einv ?n L'" using p Inl a by simp
    then show ?thesis using c Inl a
      by (auto simp: DecodeReal_def Let_def thrown_def run_inv_def core_inv_def einv_def nlit_def)
  next
    case (Inr L')
    have "linv ?n L'" "l_state L' < 12" using p Inr by simp_all
    then show ?thesis using c Inr
      by (auto simp: DecodeReal_def Let_def run_inv_def core_inv_def linv_def einv_def nlit_def)
  qed
qed

subsection \<open>\<^verbatim>\<open>WriteRem\<close>, \<^verbatim>\<open>DecodeReal2\<close> and the initialisations\<close>

lemma core_frame_refl [simp]: "core_frame c c"
  by (simp add: core_frame_def)

lemma core_frame_trans: "core_frame a b \<Longrightarrow> core_frame b c \<Longrightarrow> core_frame a c"
  by (auto simp: core_frame_def)

lemma core_frame_inv: "core_frame c c' \<Longrightarrow> core_inv c \<Longrightarrow> core_inv c'"
  by (auto simp: core_frame_def core_inv_def nlit_def)

lemma core_frame_run_inv: "core_frame c c' \<Longrightarrow> run_inv c \<Longrightarrow> run_inv c'"
  by (auto simp: core_frame_def run_inv_def core_inv_def nlit_def)

lemma cres_mono:
  assumes "cres P g r" and "\<And>c. P c \<Longrightarrow> Q c"
  shows "cres Q g r"
proof (cases r)
  case (Inl a)
  then show ?thesis using assms by (cases a) simp
next
  case (Inr b)
  then show ?thesis using assms by simp
qed

lemma WriteRem_frame: "cres (core_frame c) (\<lambda>c. c) (WriteRem limit c)"
  by (auto simp: WriteRem_def Let_def core_frame_def split: sum.splits prod.splits)

lemma WriteRem_run_inv: "run_inv c \<Longrightarrow> cres run_inv (\<lambda>c. c) (WriteRem limit c)"
  by (rule cres_mono[OF WriteRem_frame]) (rule core_frame_run_inv)

lemma WriteRem_core_inv: "core_inv c \<Longrightarrow> cres core_inv (\<lambda>c. c) (WriteRem limit c)"
  by (rule cres_mono[OF WriteRem_frame]) (rule core_frame_inv)

lemma run_inv_checkDicSize:
  "run_inv c \<Longrightarrow> run_inv (c\<lparr>checkDicSize := dicSize (m_properties c)\<rparr>)"
  by (auto simp: run_inv_def core_inv_def nlit_def)

lemma DecodeReal2_body_cres:
  assumes c: "run_inv c"
  shows "cres run_inv (\<lambda>c. c) (DecodeReal2_body limit bufLimit inp c)"
  unfolding DecodeReal2_body_def Let_def
  apply (rule cres_bindR[OF DecodeReal_cres[OF c]])
   apply (rule WriteRem_run_inv)
   apply (simp add: run_inv_checkDicSize)
  apply assumption
  done

lemma DecodeReal2_loop_cres:
  assumes some: "DecodeReal2_loop limit bufLimit inp c = Some r" and c: "run_inv c"
  shows "cres run_inv (\<lambda>c. c) r"
proof -
  have "run_inv c \<longrightarrow> cres run_inv (\<lambda>c. c) r"
  proof (rule DecodeReal2_loop.raw_induct[where P = "\<lambda>limit bufLimit inp c r.
           run_inv c \<longrightarrow> cres run_inv (\<lambda>c. c) r", OF _ some], intro impI, goal_cases)
    case (1 f limit bufLimit inp c r)
    note IH = 1(1) and eq = 1(2) and c = 1(3)
    note b = DecodeReal2_body_cres[OF c, of limit bufLimit inp]
    show ?case
    proof (cases "DecodeReal2_body limit bufLimit inp c")
      case (Inl a)
      then have "r = Inl a" using eq by simp
      then show ?thesis using b Inl by simp
    next
      case (Inr c1)
      have c1: "run_inv c1" using b Inr by simp
      show ?thesis
      proof (cases "pos (m_dic c1) < limit \<and> buf c1 < bufLimit \<and> remainLen c1 < of_nat kMatchSpecLenStart")
        case True
        then have "f limit bufLimit inp c1 = Some r" using eq Inr by simp
        from IH[OF this] c1 show ?thesis by simp
      next
        case False
        then have "r = Inr c1" using eq Inr by auto
        then show ?thesis using c1 by simp
      qed
    qed
  qed
  then show ?thesis using c by simp
qed

lemma run_inv_remainLen [simp]: "run_inv (c\<lparr>remainLen := x\<rparr>) = run_inv c"
  by (auto simp: run_inv_def core_inv_def nlit_def)

lemma DecodeReal2_cres:
  assumes c: "run_inv c"
  shows "cres run_inv (\<lambda>c. c) (DecodeReal2 limit bufLimit inp c)"
proof -
  have r: "cres run_inv (\<lambda>c. c) (run c (DecodeReal2_loop limit bufLimit inp c))"
  proof (cases "DecodeReal2_loop limit bufLimit inp c")
    case None
    then show ?thesis using c by (simp add: run_def)
  next
    case (Some r)
    then show ?thesis using DecodeReal2_loop_cres[OF Some c] by simp
  qed
  show ?thesis
    unfolding DecodeReal2_def
    by (rule cres_bindR[OF r]) simp_all
qed

lemma numProbs_unat:
  fixes a b :: u32
  assumes "unat a + unat b \<le> 4"
  shows "unat ((1846 :: u32) + push_bit (unat (a + b)) 768) = nprobs (unat a + unat b)"
proof -
  have "unat a \<le> 4" "unat b \<le> 4" using assms by simp_all
  note ca = u32_le4_cases[OF this(1)] and cb = u32_le4_cases[OF this(2)]
  show ?thesis using ca cb assms by (elim disjE; simp add: nprobs_def)
qed

lemma InitStateReal_inv:
  assumes "core_inv c"
  shows "core_inv (InitStateReal c)" and "\<not> needInitState (InitStateReal c)"
    and "needFlush (InitStateReal c) = needFlush c"
proof -
  have p: "unat (lc (m_properties c)) + unat (lp (m_properties c)) \<le> 4"
    using assms by (simp add: core_inv_def props_ok_def)
  have k: "(31 :: u32) \<le> 1024" "(1024 :: u32) \<le> 2017" by simp_all
  show "core_inv (InitStateReal c)"
    using assms numProbs_unat[OF p] k
    by (auto simp: core_inv_def InitStateReal_def Let_def nlit_def probs_ok_def lzma_consts)
  show "\<not> needInitState (InitStateReal c)" "needFlush (InitStateReal c) = needFlush c"
    by (simp_all add: InitStateReal_def Let_def)
qed

lemma InitRc_inv:
  assumes "core_inv c"
  shows "core_inv (InitRc c)" and "\<not> needFlush (InitRc c)"
  using assms by (auto simp: core_inv_def InitRc_def nlit_def)

subsection \<open>\<^verbatim>\<open>DecoderCore::DecodeToDic\<close>\<close>

lemma cresv_simps [simp]:
  "cresv P Q (Inl (e, c)) = P c"
  "cresv P Q (Inr a) = Q a"
  by (simp_all add: cresv_def)

lemma cresv_bindR:
  assumes "cresv P Q m" and "\<And>a. Q a \<Longrightarrow> cresv P' Q' (f a)" and "\<And>c. P c \<Longrightarrow> P' c"
  shows "cresv P' Q' (bindR m f)"
proof (cases m)
  case (Inl a)
  then show ?thesis using assms(1) assms(3) by (cases a) simp
next
  case (Inr b)
  then show ?thesis using assms(1) assms(2)[of b] by simp
qed

lemma cres_cresv: "cres P g r = cresv P (\<lambda>a. P (g a)) r"
  by (simp add: cres_def cresv_def)

lemma cresv_mono:
  assumes "cresv P Q r" and "\<And>c. P c \<Longrightarrow> P' c" and "\<And>a. Q a \<Longrightarrow> Q' a"
  shows "cresv P' Q' r"
proof (cases r)
  case (Inl a)
  then show ?thesis using assms by (cases a) simp
next
  case (Inr b)
  then show ?thesis using assms by simp
qed

lemma core_frame_upd [simp]:
  "core_frame c (c'\<lparr>tempBuf := tb\<rparr>) = core_frame c c'"
  "core_frame c (c'\<lparr>tempBufSize := ts\<rparr>) = core_frame c c'"
  "core_frame c (c'\<lparr>buf := b\<rparr>) = core_frame c c'"
  by (simp_all add: core_frame_def)

lemma run_inv_upd [simp]:
  "run_inv (c\<lparr>tempBuf := tb\<rparr>) = run_inv c"
  "run_inv (c\<lparr>tempBufSize := ts\<rparr>) = run_inv c"
  "run_inv (c\<lparr>buf := b\<rparr>) = run_inv c"
  by (auto simp: run_inv_def core_inv_def nlit_def)

lemma core_inv_upd [simp]:
  "core_inv (c\<lparr>tempBuf := tb\<rparr>) = core_inv c"
  "core_inv (c\<lparr>tempBufSize := ts\<rparr>) = core_inv c"
  "core_inv (c\<lparr>buf := b\<rparr>) = core_inv c"
  by (auto simp: core_inv_def nlit_def)

lemma fill_init_frame:
  "cresv (core_frame c) (\<lambda>(a, b, c'). core_frame c c') (fill_init src srcLen inSize c)"
proof (induction src srcLen inSize c rule: fill_init.induct)
  case (1 src srcLen inSize c)
  show ?case
  proof (cases "inSize > 0 \<and> tempBufSize c < of_nat RC_INIT_SIZE")
    case False
    then show ?thesis by (subst fill_init.simps) auto
  next
    case True
    show ?thesis
    proof (cases "unat srcLen < length src")
      case False
      then show ?thesis using True by (subst fill_init.simps) simp
    next
      case t: True
      let ?c1 = "c\<lparr>tempBuf := (tempBuf c)(unat (tempBufSize c) := src ! unat srcLen),
                   tempBufSize := tempBufSize c + 1\<rparr>"
      have f: "core_frame c ?c1" by simp
      have "\<not> \<not> unat srcLen < length src" using t by simp
      from 1[OF True this] have
        "cresv (core_frame ?c1) (\<lambda>(a, b, c'). core_frame ?c1 c')
           (fill_init src (srcLen + 1) (inSize - 1) ?c1)" .
      then have "cresv (core_frame c) (\<lambda>(a, b, c'). core_frame c c')
           (fill_init src (srcLen + 1) (inSize - 1) ?c1)"
        by (rule cresv_mono) (auto intro: core_frame_trans[OF f])
      then show ?thesis using True t by (subst fill_init.simps) simp
    qed
  qed
qed

lemma DecodeToDic_data_cres:
  assumes c: "run_inv c"
  shows "cresv run_inv (\<lambda>(ret, sl, isz, c'). run_inv c')
           (DecodeToDic_data dicLimit src chk srcLen inSize c)"
proof (cases "tempBufSize c = 0")
  case True
  let ?inp = "drop (unat srcLen) src"
  let ?Q = "\<lambda>r. case r of Inl (ret, sl, isz, c') \<Rightarrow> run_inv c' | Inr (b :: nat) \<Rightarrow> True"
  show ?thesis
    unfolding DecodeToDic_data_def
    apply (subst if_P[OF True])
    apply (simp only: Let_def)
    apply (rule cresv_bindR[where P = run_inv and Q = ?Q])
    subgoal using c by (auto split: sum.splits)
    subgoal for r
      apply (cases r)
      subgoal by (auto split: prod.splits)
      subgoal for bufLimit
        apply (simp only: sum.case)
        apply (rule cresv_bindR[OF DecodeReal2_cres[unfolded cres_cresv]])
        subgoal using c by simp
        subgoal by (simp add: Let_def)
        subgoal by assumption
        done
      done
    subgoal by assumption
    done
next
  case False
  show ?thesis
  proof (cases "fill_temp src srcLen inSize (tempBufSize c) 0 (tempBuf c)")
    case (Inl e)
    then show ?thesis using False c by (simp add: DecodeToDic_data_def)
  next
    case (Inr t)
    obtain rem lookAhead tb where t: "t = (rem, lookAhead, tb)" by (cases t)
    let ?c = "c\<lparr>tempBuf := tb, tempBufSize := rem\<rparr>"
    have c1: "run_inv ?c" using c by simp
    let ?Q = "\<lambda>r. case r of Some (ret, sl, isz, c') \<Rightarrow> run_inv c' | None \<Rightarrow> True"
    show ?thesis
      unfolding DecodeToDic_data_def
      apply (subst if_not_P[OF False])
      apply (simp only: Inr t sum.case prod.case Let_def)
      apply (rule cresv_bindR[where P = run_inv and Q = ?Q])
      subgoal using c1 by (auto split: sum.splits)
      subgoal for r
        apply (cases r)
        subgoal
          apply (simp only: option.case)
          apply (rule cresv_bindR[OF DecodeReal2_cres[unfolded cres_cresv]])
          subgoal using c1 by simp
          subgoal by (simp add: Let_def)
          subgoal by assumption
          done
        subgoal by (auto split: prod.splits)
        done
      subgoal by assumption
      done
  qed
qed

lemma DecodeToDic_body_cres:
  assumes c: "core_inv c"
  shows "cresv core_inv (\<lambda>(ret, sl, isz, c'). core_inv c')
           (DecodeToDic_body dicLimit src finishMode srcLen inSize c)"
proof -
  let ?Q = "\<lambda>(ret :: Status option, sl :: usize, isz :: usize, c').
              core_inv c' \<and> (ret = None \<longrightarrow> \<not> needFlush c')"
  have first: "cresv core_inv ?Q
     (if needFlush c then
          bindR (fill_init src srcLen inSize c) (\<lambda>(srcLen, inSize, c).
            if tempBufSize c < of_nat RC_INIT_SIZE
            then Inr (Some NeedsMoreInput, srcLen, inSize, c)
            else if tempBuf c 0 \<noteq> 0 then Inl (BadStream, c)
            else Inr (None, srcLen, inSize, (InitRc c)\<lparr>tempBufSize := 0\<rparr>))
        else Inr (None, srcLen, inSize, c))"
  proof (cases "needFlush c")
    case False
    then show ?thesis using c by simp
  next
    case True
    have fi: "cresv core_inv (\<lambda>(a, b, c'). core_inv c') (fill_init src srcLen inSize c)"
      by (rule cresv_mono[OF fill_init_frame]) (auto intro: core_frame_inv c)
    show ?thesis
      apply (subst if_P[OF True])
      apply (rule cresv_bindR[OF fi])
       apply (auto simp: InitRc_inv)
      done
  qed
  show ?thesis
    unfolding DecodeToDic_body_def
    apply (rule cresv_bindR[OF first])
     prefer 2 apply assumption
    subgoal for a
      apply (cases a)
      subgoal for ret sl isz c1
        apply (cases "ret \<noteq> None")
        subgoal by simp
        subgoal
          apply (simp only: prod.case if_False)
          apply (rule cresv_bindR[where P = core_inv and Q = "\<lambda>r. True"])
          subgoal by simp
          subgoal for r
            apply (cases r)
            subgoal by simp
            subgoal for chk
              apply (simp only: sum.case)
              apply (rule cresv_mono[OF DecodeToDic_data_cres])
              subgoal
                by (cases "needInitState c1")
                   (auto simp: run_inv_def InitStateReal_inv)
              subgoal by (simp add: run_inv_def)
              subgoal by (auto simp: run_inv_def)
              done
            done
          subgoal by assumption
          done
        done
      done
    done
qed

lemma DecodeToDic_loop_cres:
  assumes some: "DecodeToDic_loop dicLimit src finishMode srcLen inSize c = Some r"
      and c: "core_inv c"
  shows "cresv core_inv (\<lambda>(a, c'). core_inv c') r"
proof -
  have "core_inv c \<longrightarrow> cresv core_inv (\<lambda>(a, c'). core_inv c') r"
  proof (rule DecodeToDic_loop.raw_induct[where P = "\<lambda>dicLimit src finishMode srcLen inSize c r.
           core_inv c \<longrightarrow> cresv core_inv (\<lambda>(a, c'). core_inv c') r", OF _ some],
         intro impI, goal_cases)
    case (1 f dicLimit src finishMode srcLen inSize c r)
    note IH = 1(1) and eq = 1(2) and c = 1(3)
    note b = DecodeToDic_body_cres[OF c, of dicLimit src finishMode srcLen inSize]
    show ?case
    proof (cases "remainLen c \<noteq> of_nat kMatchSpecLenStart")
      case False
      then show ?thesis using eq c by (auto split: if_splits)
    next
      case True
      show ?thesis
      proof (cases "DecodeToDic_body dicLimit src finishMode srcLen inSize c")
        case (Inl a)
        then have "r = Inl a" using eq True by simp
        then show ?thesis using b Inl by (cases a) simp
      next
        case (Inr p)
        obtain ret sl isz c1 where p: "p = (ret, sl, isz, c1)" by (cases p)
        have c1: "core_inv c1" using b Inr p by simp
        show ?thesis
        proof (cases ret)
          case None
          then have "f dicLimit src finishMode sl isz c1 = Some r"
            using eq True Inr p by simp
          from IH[OF this] c1 show ?thesis by simp
        next
          case (Some st)
          then have "r = Inr ((sl, st), c1)" using eq True Inr p by simp
          then show ?thesis using c1 by simp
        qed
      qed
    qed
  qed
  then show ?thesis using c by simp
qed

lemma DecodeToDic_cres:
  assumes c: "core_inv c"
  shows "cresv core_inv (\<lambda>(a, c'). core_inv c') (DecodeToDic dicLimit src inSize finishMode c)"
  unfolding DecodeToDic_def
  apply (rule cresv_bindR[OF WriteRem_core_inv[OF c, unfolded cres_cresv]])
  subgoal for c1
    apply (cases "DecodeToDic_loop dicLimit src finishMode 0 inSize c1")
    subgoal by (simp add: run_def)
    subgoal for r using DecodeToDic_loop_cres[of dicLimit src finishMode 0 inSize c1 r] by simp
    done
  subgoal by assumption
  done

subsection \<open>The framer\<close>

lemma dresv_simps [simp]:
  "dresv P Q (Inl (e, d)) = P d"
  "dresv P Q (Inr a) = Q a"
  by (simp_all add: dresv_def)

lemma dresv_bindR:
  assumes "dresv P Q m" and "\<And>a. Q a \<Longrightarrow> dresv P' Q' (f a)" and "\<And>c. P c \<Longrightarrow> P' c"
  shows "dresv P' Q' (bindR m f)"
proof (cases m)
  case (Inl a)
  then show ?thesis using assms(1) assms(3) by (cases a) simp
next
  case (Inr b)
  then show ?thesis using assms(1) assms(2)[of b] by simp
qed

lemma dec_inv_core:
  "dec_inv d \<Longrightarrow> \<not> pending d \<Longrightarrow> core_inv (decoder d)"
  by (auto simp: dec_inv_def core_inv_def)

lemma core_dec_inv:
  "core_inv (decoder d) \<Longrightarrow> framer_ok d \<Longrightarrow> dec_inv d"
  by (auto simp: dec_inv_def core_inv_def)

lemma InitDicAndState_core_inv:
  "core_inv c \<Longrightarrow> core_inv (InitDicAndState a b c)"
  by (auto simp: core_inv_def InitDicAndState_def Let_def nlit_def)

lemma InitDicAndState_True:
  assumes "trace_ok (norm_trace c)" "props_ok (m_properties c)"
    "checkDicSize c = 0 \<or> checkDicSize c = dicSize (m_properties c)"
  shows "core_inv (InitDicAndState a True c)"
  using assms by (auto simp: core_inv_def InitDicAndState_def Let_def nlit_def)

lemma prop_byte_arith:
  fixes b :: u32
  assumes "\<not> 9 * 5 * 5 \<le> b"
  shows "unat (b div 9 div 5) \<le> 4"
    and "\<not> b mod 9 + b div 9 mod 5 > 4 \<Longrightarrow> unat (b mod 9) + unat (b div 9 mod 5) \<le> 4"
proof -
  have b: "unat b < 225" using assms by (simp add: word_le_nat_alt)
  show "unat (b div 9 div 5) \<le> 4" using b by (simp add: unat_div)
  have m: "unat (b mod 9) = unat b mod 9" "unat (b div 9 mod 5) = unat b div 9 mod 5"
    by (simp_all add: unat_mod unat_div)
  have "unat (b mod 9) + unat (b div 9 mod 5) < 2 ^ 32" unfolding m
    by (rule less_trans[of _ 14]) (simp_all add: add_less_le_mono)
  then have s: "unat (b mod 9 + b div 9 mod 5) = unat (b mod 9) + unat (b div 9 mod 5)"
    by (simp add: unat_word_ariths)
  assume "\<not> b mod 9 + b div 9 mod 5 > 4"
  then show "unat (b mod 9) + unat (b div 9 mod 5) \<le> 4"
    using s by (simp add: word_less_nat_alt not_less)
qed

lemma UpdateState_framer:
  assumes "state2 d \<noteq> LZMA2_STATE_PROP" "state2 d \<noteq> LZMA2_STATE_DATA"
      and "framer_ok d" and "UpdateState b d = (s, d1)"
  shows "decoder d1 = decoder d" and "framer_ok (d1\<lparr>state2 := s\<rparr>)"
  using assms
  by (cases "state2 d";
      auto simp: UpdateState_def Let_def framer_ok_def isUncompressedState_def
                 getLzmaMode_def isThereProp_def
           split: if_splits)+

lemma UpdateState_dec_inv:
  assumes d: "dec_inv d" and st: "state2 d \<noteq> LZMA2_STATE_DATA"
      and u: "UpdateState b d = (s, d1)"
  shows "dec_inv (d1\<lparr>state2 := s\<rparr>)"
proof (cases "state2 d = LZMA2_STATE_PROP")
  case False
  have np: "\<not> pending d" using st by (simp add: pending_def)
  have f: "framer_ok d" using d by (simp add: dec_inv_def)
  note k = UpdateState_framer[OF False st f u]
  from dec_inv_core[OF d np] k(1) have "core_inv (decoder (d1\<lparr>state2 := s\<rparr>))" by simp
  then show ?thesis using k(2) by (rule core_dec_inv)
next
  case True
  have np: "\<not> pending d" using st by (simp add: pending_def)
  have k: "\<not> isUncompressedState d" "2 \<le> getLzmaMode d"
    using d True by (simp_all add: dec_inv_def framer_ok_def)
  show ?thesis
  proof (cases "9 * 5 * 5 \<le> b")
    case t: True
    then have "s = LZMA2_STATE_ERROR" "d1 = d" using u True by (simp_all add: UpdateState_def)
    then show ?thesis using d np by (auto simp: dec_inv_def framer_ok_def pending_def nlit_def)
  next
    case f: False
    note a = prop_byte_arith[OF f]
    show ?thesis
    proof (cases "b mod 9 + b div 9 mod 5 > LC_PLUS_LP_MAX")
      case t: True
      then have "s = LZMA2_STATE_ERROR"
        "d1 = d\<lparr>decoder := (decoder d)\<lparr>m_properties :=
                        (m_properties (decoder d))\<lparr>pb := b div 9 div 5\<rparr>\<rparr>\<rparr>"
        using u True f by (simp_all add: UpdateState_def Let_def)
      then show ?thesis using d np a(1)
        by (auto simp: dec_inv_def framer_ok_def pending_def nlit_def props_ok_def)
    next
      case ff: False
      then have s: "s = LZMA2_STATE_DATA"
        and d1: "d1 = d\<lparr>decoder := (decoder d)\<lparr>m_properties :=
                        (m_properties (decoder d))\<lparr>pb := b div 9 div 5, lc := b mod 9,
                           lp := b div 9 mod 5\<rparr>\<rparr>, needInitProp := False\<rparr>"
        using u True f by (simp_all add: UpdateState_def Let_def)
      have "unat (b mod 9) + unat (b div 9 mod 5) \<le> 4"
        using a(2) ff by (simp add: LC_PLUS_LP_MAX_def)
      then show ?thesis using d k a(1) s d1
        by (auto simp: dec_inv_def framer_ok_def pending_def props_ok_def
                       isUncompressedState_def getLzmaMode_def)
    qed
  qed
qed

lemma UpdateWithUncompressed_frame:
  "cres (core_frame c) (\<lambda>c. c) (UpdateWithUncompressed src sz c)"
  by (auto simp: UpdateWithUncompressed_def Let_def core_frame_def)

lemma framer_ok_data:
  "state2 d = LZMA2_STATE_DATA \<or> state2 d = LZMA2_STATE_DATA_CONT \<or>
   state2 d = LZMA2_STATE_CONTROL \<Longrightarrow> framer_ok d"
  by (auto simp: framer_ok_def)

lemma unc_step:
  assumes c: "core_inv (decoder d1)"
      and st: "state2 d1 = LZMA2_STATE_DATA \<or> state2 d1 = LZMA2_STATE_DATA_CONT"
      and F: "\<And>c. decoder (F c) = c"
        "\<And>c. state2 (F c) = LZMA2_STATE_CONTROL \<or> state2 (F c) = LZMA2_STATE_DATA_CONT"
  shows "dresv dec_inv (\<lambda>(ret, sl, d'). dec_inv d')
     (case UpdateWithUncompressed inp sz (decoder d1) of
        Inl (e, c) \<Rightarrow> Inl (e, d1\<lparr>decoder := c\<rparr>)
      | Inr c \<Rightarrow> Inr (None :: Status option, sl1 :: usize, F c))"
proof (cases "UpdateWithUncompressed inp sz (decoder d1)")
  case (Inl a)
  obtain e c' where a: "a = (e, c')" by (cases a)
  have "core_frame (decoder d1) c'"
    using UpdateWithUncompressed_frame[of "decoder d1" inp sz] Inl a by simp
  from core_frame_inv[OF this c] have "core_inv c'" .
  then have "dec_inv (d1\<lparr>decoder := c'\<rparr>)"
    using st by (intro core_dec_inv framer_ok_data) auto
  then show ?thesis using Inl a by simp
next
  case (Inr c')
  have "core_frame (decoder d1) c'"
    using UpdateWithUncompressed_frame[of "decoder d1" inp sz] Inr by simp
  from core_frame_inv[OF this c] have "core_inv c'" .
  then have "dec_inv (F c')"
    using F(2)[of c'] by (intro core_dec_inv framer_ok_data) (auto simp: F(1))
  then show ?thesis using Inr by simp
qed

lemma Decoder2_uncompressed_inv:
  assumes d: "dec_inv d" and un: "isUncompressedState d"
      and st: "state2 d = LZMA2_STATE_DATA \<or> state2 d = LZMA2_STATE_DATA_CONT"
  shows "dresv dec_inv (\<lambda>(ret, sl, d'). dec_inv d')
           (Decoder2_uncompressed dicLimit src inSize srcLen destSizeCur srcSizeCur d)"
proof -
  have np: "\<not> pending d" using un by (simp add: pending_def)
  note c = dec_inv_core[OF d np]
  let ?Q = "\<lambda>d'. core_inv (decoder d') \<and>
                 (state2 d' = LZMA2_STATE_DATA \<or> state2 d' = LZMA2_STATE_DATA_CONT)"
  have first: "dresv dec_inv ?Q
     (if state2 d = LZMA2_STATE_DATA then
             (let initDic = (control d = CONTROL_COPY_RESET_DIC)
              in if \<not> initDic \<and> needInitDic d then Inl (BadStream, d)
                 else
                   let d = (if initDic then d\<lparr>needInitProp := True, needInitState2 := True\<rparr>
                            else d);
                       d = d\<lparr>needInitDic := False\<rparr>
                   in Inr (d\<lparr>decoder := InitDicAndState initDic False (decoder d)\<rparr>))
           else Inr d)"
    using d c st by (auto simp: Let_def InitDicAndState_core_inv)
  show ?thesis
  proof (cases "srcLen = inSize")
    case True
    then show ?thesis using d by (simp add: Decoder2_uncompressed_def)
  next
    case False
    show ?thesis
      unfolding Decoder2_uncompressed_def
      apply (subst if_not_P[OF False])
      apply (rule dresv_bindR[OF first])
       prefer 2 apply assumption
      subgoal for d1
        apply (simp only: Let_def)
        apply (cases "(if destSizeCur < srcSizeCur then destSizeCur else srcSizeCur) = 0")
        subgoal by (auto intro!: core_dec_inv framer_ok_data)
        subgoal
          apply (subst if_not_P, assumption)
          apply (rule unc_step)
           apply simp_all
          done
        done
      done
  qed
qed

lemma cmp_step:
  assumes c: "core_inv (decoder d1)" and st: "state2 d1 = LZMA2_STATE_DATA_CONT"
  shows "dresv dec_inv (\<lambda>(ret, sl, d'). dec_inv d')
     (case DecodeToDic lim inp sz fm (decoder d1) of
        Inl (e, c) \<Rightarrow> Inl (e, d1\<lparr>decoder := c\<rparr>)
      | Inr ((srcSizeCur, status), c) \<Rightarrow>
          (let d = d1\<lparr>decoder := c\<rparr>;
               srcLen = srcLen0 + srcSizeCur;
               d = d\<lparr>packSize := packSize d - srcSizeCur\<rparr>;
               outSizeProcessed = pos (m_dic (decoder d)) - dicPos;
               d = d\<lparr>unpackSize := unpackSize d - outSizeProcessed\<rparr>
           in if status = NeedsMoreInput then Inr (Some NeedsMoreInput, srcLen, d)
              else if srcSizeCur = 0 \<and> outSizeProcessed = 0 then
                (if status \<noteq> MaybeFinishedWithoutMark \<or> unpackSize d \<noteq> 0 \<or> packSize d \<noteq> 0
                 then Inl (BadStream, d)
                 else Inr (None, srcLen, d\<lparr>state2 := LZMA2_STATE_CONTROL\<rparr>))
              else Inr (None, srcLen, d)))"
proof (cases "DecodeToDic lim inp sz fm (decoder d1)")
  case (Inl a)
  obtain e c' where a: "a = (e, c')" by (cases a)
  have "core_inv c'" using DecodeToDic_cres[OF c, of lim inp sz fm] Inl a by simp
  then have "dec_inv (d1\<lparr>decoder := c'\<rparr>)"
    using st by (intro core_dec_inv framer_ok_data) auto
  then show ?thesis using Inl a by simp
next
  case (Inr b)
  obtain ss status c' where b: "b = ((ss, status), c')" by (cases b) auto
  have c': "core_inv c'" using DecodeToDic_cres[OF c, of lim inp sz fm] Inr b by simp
  have k: "dec_inv d'" if "decoder d' = c'"
    "state2 d' = LZMA2_STATE_DATA_CONT \<or> state2 d' = LZMA2_STATE_CONTROL" for d'
    using that c' by (intro core_dec_inv framer_ok_data) auto
  show ?thesis
    using st by (auto simp: Inr b Let_def intro!: k)
qed

lemma Decoder2_compressed_inv:
  assumes d: "dec_inv d" and un: "\<not> isUncompressedState d"
      and st: "state2 d = LZMA2_STATE_DATA \<or> state2 d = LZMA2_STATE_DATA_CONT"
  shows "dresv dec_inv (\<lambda>(ret, sl, d'). dec_inv d')
           (Decoder2_compressed src srcLen dicPos destSizeCur srcSizeCur curFinishMode d)"
proof -
  let ?Q = "\<lambda>d'. core_inv (decoder d') \<and> state2 d' = LZMA2_STATE_DATA_CONT"
  have first: "dresv dec_inv ?Q
     (if state2 d = LZMA2_STATE_DATA then
          (let mode = getLzmaMode d;
               initDic = (mode = 3);
               initState = (mode > 0)
           in if (\<not> initDic \<and> needInitDic d) \<or> (\<not> initState \<and> needInitState2 d)
              then Inl (BadStream, d)
              else Inr (d\<lparr>decoder := InitDicAndState initDic initState (decoder d),
                          needInitDic := False, needInitState2 := False,
                          state2 := LZMA2_STATE_DATA_CONT\<rparr>))
        else Inr d)"
  proof (cases "state2 d = LZMA2_STATE_DATA")
    case False
    then have "\<not> pending d" by (simp add: pending_def)
    from dec_inv_core[OF d this] False st show ?thesis by simp
  next
    case True
    show ?thesis
    proof (cases "pending d")
      case False
      from dec_inv_core[OF d this] d True show ?thesis
        by (auto simp: Let_def InitDicAndState_core_inv)
    next
      case p: True
      then have "2 \<le> getLzmaMode d" by (simp add: pending_def)
      then have m: "getLzmaMode d > 0" by (simp add: word_less_nat_alt word_le_nat_alt)
      have "trace_ok (norm_trace (decoder d))" "props_ok (m_properties (decoder d))"
        "checkDicSize (decoder d) = 0 \<or>
         checkDicSize (decoder d) = dicSize (m_properties (decoder d))"
        using d by (simp_all add: dec_inv_def)
      note i = InitDicAndState_True[OF this]
      show ?thesis using True d m i by (auto simp: Let_def)
    qed
  qed
  show ?thesis
    unfolding Decoder2_compressed_def
    apply (rule dresv_bindR[OF first])
     prefer 2 apply assumption
    subgoal for d1
      apply (simp only: Let_def)
      apply (rule cmp_step[unfolded Let_def])
       apply simp_all
      done
    done
qed

lemma Decoder2_body_inv:
  assumes d: "dec_inv d"
  shows "dresv dec_inv (\<lambda>(ret, sl, d'). dec_inv d')
           (Decoder2_body dicLimit src inSize finishMode srcLen d)"
proof (cases "state2 d = LZMA2_STATE_DATA \<or> state2 d = LZMA2_STATE_DATA_CONT")
  case True
  then have ne: "state2 d \<noteq> LZMA2_STATE_ERROR" by auto
  show ?thesis
  proof (cases "pos (m_dic (decoder d)) = dicLimit \<and> finishMode = Any")
    case t: True
    then show ?thesis using d ne by (simp add: Decoder2_body_def Let_def)
  next
    case False
    show ?thesis
    proof (cases "isUncompressedState d")
      case u: True
      show ?thesis using Decoder2_uncompressed_inv[OF d u True] True False ne u
        by (auto simp: Decoder2_body_def Let_def)
    next
      case u: False
      show ?thesis using Decoder2_compressed_inv[OF d u True] True False ne u
        by (auto simp: Decoder2_body_def Let_def)
    qed
  qed
next
  case False
  then have nd: "state2 d \<noteq> LZMA2_STATE_DATA" by simp
  show ?thesis
  proof (cases "UpdateState (ucast (src ! unat srcLen)) d")
    case (Pair s d1)
    from UpdateState_dec_inv[OF d nd Pair] d False Pair show ?thesis
      by (auto simp: Decoder2_body_def Let_def)
  qed
qed

lemma Decoder2_loop_inv:
  assumes some: "Decoder2_loop dicLimit src inSize finishMode srcLen d = Some r"
      and d: "dec_inv d"
  shows "dresv dec_inv (\<lambda>(a, d'). dec_inv d') r"
proof -
  have "dec_inv d \<longrightarrow> dresv dec_inv (\<lambda>(a, d'). dec_inv d') r"
  proof (rule Decoder2_loop.raw_induct[where P = "\<lambda>dicLimit src inSize finishMode srcLen d r.
           dec_inv d \<longrightarrow> dresv dec_inv (\<lambda>(a, d'). dec_inv d') r", OF _ some],
         intro impI, goal_cases)
    case (1 f dicLimit src inSize finishMode srcLen d r)
    note IH = 1(1) and eq = 1(2) and d = 1(3)
    note b = Decoder2_body_inv[OF d, of dicLimit src inSize finishMode srcLen]
    show ?case
    proof (cases "state2 d \<noteq> LZMA2_STATE_FINISHED")
      case False
      then show ?thesis using eq d by auto
    next
      case True
      show ?thesis
      proof (cases "Decoder2_body dicLimit src inSize finishMode srcLen d")
        case (Inl a)
        then have "r = Inl a" using eq True by simp
        then show ?thesis using b Inl by (cases a) simp
      next
        case (Inr p)
        obtain ret sl d1 where p: "p = (ret, sl, d1)" by (cases p)
        have d1: "dec_inv d1" using b Inr p by simp
        show ?thesis
        proof (cases ret)
          case None
          then have "f dicLimit src inSize finishMode sl d1 = Some r"
            using eq True Inr p by simp
          from IH[OF this] d1 show ?thesis by simp
        next
          case (Some st)
          then have "r = Inr ((sl, st), d1)" using eq True Inr p by simp
          then show ?thesis using d1 by simp
        qed
      qed
    qed
  qed
  then show ?thesis using d by simp
qed

lemma Decoder2_DecodeToDic_inv:
  assumes d: "dec_inv d"
  shows "dresv dec_inv (\<lambda>(a, d'). dec_inv d')
           (Decoder2_DecodeToDic dicLimit src inSize finishMode d)"
proof (cases "Decoder2_loop dicLimit src inSize finishMode 0 d")
  case None
  then show ?thesis using d by (simp add: Decoder2_DecodeToDic_def run_def)
next
  case (Some r)
  then show ?thesis using Decoder2_loop_inv[OF Some d] by (simp add: Decoder2_DecodeToDic_def)
qed

subsection \<open>Reachable decoders\<close>

lemma Reset_inv:
  assumes "trace_ok (norm_trace (decoder d))" "props_ok (m_properties (decoder d))"
  shows "dec_inv (Reset d)"
  using assms
  by (auto simp: Reset_def Let_def InitDicAndState_def dec_inv_def framer_ok_def)

lemma Decoder2_new_inv: "Decoder2_new prop u = Inr d \<Longrightarrow> dec_inv d"
proof -
  assume a: "Decoder2_new prop u = Inr d"
  let ?u = "u\<lparr>decoder := (decoder u)\<lparr>m_properties :=
             \<lparr>lc = LC_PLUS_LP_MAX, lp = 0, pb = 0,
              dicSize = (if prop = 40 then 0xFFFFFFFF else dicSizeFromProp prop)\<rparr>,
             norm_trace := []\<rparr>\<rparr>"
  have "d = Reset ?u" using a by (simp add: Decoder2_new_def split: if_splits)
  moreover have "dec_inv (Reset ?u)"
    by (rule Reset_inv) (simp_all add: trace_ok_def props_ok_def LC_PLUS_LP_MAX_def)
  ultimately show ?thesis by simp
qed

lemma set_dic_inv:
  "dec_inv d \<Longrightarrow> dec_inv (d\<lparr>decoder := (decoder d)\<lparr>m_dic := v\<rparr>\<rparr>)"
  by (auto simp: dec_inv_def framer_ok_def pending_def nlit_def isUncompressedState_def
                 getLzmaMode_def)

lemma reachable_dec_inv: "reachable d \<Longrightarrow> dec_inv d"
proof (induction rule: reachable.induct)
  case (constructed p u d)
  from Decoder2_new_inv[OF constructed] show ?case .
next
  case (reset d)
  then have "trace_ok (norm_trace (decoder d))" "props_ok (m_properties (decoder d))"
    by (simp_all add: dec_inv_def)
  from Reset_inv[OF this] show ?case .
next
  case (set_dic d v)
  from set_dic_inv[OF set_dic.IH] show ?case .
next
  case (returned d dicLimit src inSize finishMode a d')
  from Decoder2_DecodeToDic_inv[OF returned(3), of dicLimit src inSize finishMode] returned(2)
  show ?case by simp
next
  case (raised d dicLimit src inSize finishMode e d')
  from Decoder2_DecodeToDic_inv[OF raised(3), of dicLimit src inSize finishMode] raised(2)
  show ?case by simp
qed

subsection \<open>The decoder that has read one compressed chunk\<close>

lemma loop_step:
  assumes "state2 d \<noteq> LZMA2_STATE_FINISHED" "state2 d \<noteq> LZMA2_STATE_ERROR"
    "state2 d \<noteq> LZMA2_STATE_DATA" "state2 d \<noteq> LZMA2_STATE_DATA_CONT"
    "pos (m_dic (decoder d)) \<noteq> dicLimit" "srcLen \<noteq> inSize" "unat srcLen < length src"
  shows "Decoder2_loop dicLimit src inSize fm srcLen d =
         Decoder2_loop dicLimit src inSize fm (srcLen + 1) (feed (src ! unat srcLen) d)"
  using assms
  by (subst Decoder2_loop.simps) (simp add: Decoder2_body_def feed_def Let_def split: prod.splits)

lemma feed_pos: "pos (m_dic (decoder (feed b d))) = pos (m_dic (decoder d))"
  by (cases "state2 d")
     (simp_all add: feed_def UpdateState_def Let_def split: prod.splits if_splits)

lemma one_byte_fields:
  "state2 one_byte_decoder = LZMA2_STATE_CONTROL"
  "pos (m_dic (decoder one_byte_decoder)) = 0"
  by (simp_all add: one_byte_decoder_def Decoder2_new_def Reset_def InitDicAndState_def Let_def)

lemmas feed_defs = feed_def UpdateState_def Let_def isUncompressedState_def getLzmaMode_def
  isThereProp_def CONTROL_LZMA_def LC_PLUS_LP_MAX_def

lemma header_states:
  "state2 (feed 0xE0 one_byte_decoder) = LZMA2_STATE_UNPACK0"
  "state2 (feed 0 (feed 0xE0 one_byte_decoder)) = LZMA2_STATE_UNPACK1"
  "state2 (feed 0 (feed 0 (feed 0xE0 one_byte_decoder))) = LZMA2_STATE_PACK0"
  "state2 (feed 0 (feed 0 (feed 0 (feed 0xE0 one_byte_decoder)))) = LZMA2_STATE_PACK1"
  "state2 (feed 5 (feed 0 (feed 0 (feed 0 (feed 0xE0 one_byte_decoder))))) = LZMA2_STATE_PROP"
  by (simp_all add: feed_defs one_byte_fields)

lemma header_fields:
  "state2 header_decoder = LZMA2_STATE_DATA"
  "control header_decoder = 0xE0"
  "packSize header_decoder = 6"
  "unpackSize header_decoder = 1"
  "needInitDic header_decoder"
  "pos (m_dic (decoder header_decoder)) = 0"
  by (simp_all add: header_decoder_def feed_defs one_byte_decoder_def Decoder2_new_def Reset_def
        InitDicAndState_def zeroDecoder2_def)

lemma header_loop:
  "Decoder2_loop 1 lzma_chunk 12 Any 0 one_byte_decoder =
   Decoder2_loop 1 lzma_chunk 12 Any 6 header_decoder"
  by (simp add: loop_step header_states one_byte_fields feed_pos lzma_chunk_def
        header_decoder_def)

lemmas dummy_defs = TryDummy_def dummy_literal_def dummy_len_dist_def bit_check_def
  NORMALIZE_CHECK_def bit0Check_def UPDATE_0_CHECK_def UPDATE_1_CHECK_def run_d_def
  tree_check_loop.simps TREE_DECODE_CHECK_def matched_lit_check_loop.simps
  direct_bits_check_loop.simps rev_bits_check_loop.simps

lemma core_start_fields:
  "needFlush core_start" "needInitState core_start" "remainLen core_start = 0"
  "tempBufSize core_start = 0" "m_dic core_start = \<lparr>mem = [0], dsize = 1, pos = 0\<rparr>"
  "processedPos core_start = 0" "checkDicSize core_start = 0"
  "m_properties core_start = \<lparr>lc = 0, lp = 0, pb = 0, dicSize = 4096\<rparr>"
  "norm_trace core_start = []"
  by (simp_all add: core_start_def header_decoder_def feed_defs one_byte_decoder_def
        Decoder2_new_def Reset_def InitDicAndState_def zeroDecoder2_def zeroCore_def
        dicSizeFromProp_def)

lemma fill_eval:
  "case fill_init [0, 0, 0, 0, 0, 0] 0 6 core_start of
     Inr (sl, isz, c) \<Rightarrow> sl = 5 \<and> isz = 1 \<and> tempBufSize c = 5 \<and> tempBuf c 0 = 0 \<and>
        tempBuf c 1 = 0 \<and> tempBuf c 2 = 0 \<and> tempBuf c 3 = 0 \<and> tempBuf c 4 = 0 \<and>
        needInitState c \<and> remainLen c = 0 \<and> m_dic c = \<lparr>mem = [0], dsize = 1, pos = 0\<rparr> \<and>
        processedPos c = 0 \<and> checkDicSize c = 0 \<and>
        m_properties c = \<lparr>lc = 0, lp = 0, pb = 0, dicSize = 4096\<rparr> \<and> norm_trace c = []
   | Inl e \<Rightarrow> False"
  by (simp add: fill_init.simps core_start_fields lzma_consts)

lemma fill_res: "fill_init [0, 0, 0, 0, 0, 0] 0 6 core_start = Inr (5, 1, core_filled)"
  using fill_eval unfolding core_filled_def
  by (cases "fill_init [0, 0, 0, 0, 0, 0] 0 6 core_start") auto

lemma core_filled_fields:
  "tempBufSize core_filled = 5" "tempBuf core_filled 0 = 0"
  "tempBuf core_filled (Suc 0) = 0" "tempBuf core_filled 2 = 0" "tempBuf core_filled 3 = 0"
  "tempBuf core_filled 4 = 0" "needInitState core_filled" "remainLen core_filled = 0"
  "m_dic core_filled = \<lparr>mem = [0], dsize = 1, pos = 0\<rparr>"
  "processedPos core_filled = 0" "checkDicSize core_filled = 0"
  "m_properties core_filled = \<lparr>lc = 0, lp = 0, pb = 0, dicSize = 4096\<rparr>"
  "norm_trace core_filled = []"
  using fill_eval unfolding core_filled_def
  by (cases "fill_init [0, 0, 0, 0, 0, 0] 0 6 core_start"; auto)+

lemma core_ready_fields:
  "m_range core_ready = 0xFFFFFFFF" "m_code core_ready = 0" "state core_ready = 0"
  "m_dic core_ready = \<lparr>mem = [0], dsize = 1, pos = 0\<rparr>" "processedPos core_ready = 0"
  "checkDicSize core_ready = 0" "remainLen core_ready = 0" "tempBufSize core_ready = 0"
  "m_properties core_ready = \<lparr>lc = 0, lp = 0, pb = 0, dicSize = 4096\<rparr>"
  "norm_trace core_ready = []" "reps0 core_ready = 1" "reps1 core_ready = 1"
  "reps2 core_ready = 1" "reps3 core_ready = 1"
  "\<not> needFlush core_ready" "\<not> needInitState core_ready"
  by (simp_all add: core_ready_def InitStateReal_def InitRc_def Let_def core_filled_fields)

lemma core_ready_probs: "i < 2614 \<Longrightarrow> m_probs core_ready i = 1024"
  by (simp add: core_ready_def InitStateReal_def InitRc_def Let_def core_filled_fields
        lzma_consts)

lemma dummy_res: "TryDummy [0] 1 core_ready = Inr DUMMY_LIT"
  by (simp add: dummy_defs core_ready_fields core_ready_probs lzma_consts Let_def)

lemma sym_eval:
  "case decode_symbol (env_of 1 0 [0] (core_ready\<lparr>buf := 0\<rparr>))
                      (locals_of (core_ready\<lparr>buf := 0\<rparr>)) of
     Inr (b, L) \<Rightarrow> \<not> b \<and> l_dicPos L = 1 \<and> l_buf L = 1 \<and> l_len L = 0 \<and> l_code L = 0 \<and>
         l_range L = 2147352576 \<and> l_processedPos L = 1 \<and>
         l_norm_trace L = [4294705152, 33553408, 67107840, 134216704, 268434432,
                        536869888, 1073740800, 2147482624, 4294967295]
   | Inl e \<Rightarrow> False"
  by (simp add: eval_defs locals_of_def core_ready_fields core_ready_probs)

lemma sym_res:
  "decode_symbol (env_of 1 0 [0] (core_ready\<lparr>buf := 0\<rparr>))
                 (locals_of (core_ready\<lparr>buf := 0\<rparr>)) = Inr (False, locals_lit)"
  using sym_eval unfolding locals_lit_def
  by (cases "decode_symbol (env_of 1 0 [0] (core_ready\<lparr>buf := 0\<rparr>))
                           (locals_of (core_ready\<lparr>buf := 0\<rparr>))") auto

lemma locals_lit_fields:
  "l_dicPos locals_lit = 1" "l_buf locals_lit = 1" "l_len locals_lit = 0"
  "l_code locals_lit = 0" "l_range locals_lit = 2147352576" "l_processedPos locals_lit = 1"
  "l_norm_trace locals_lit = [4294705152, 33553408, 67107840, 134216704, 268434432,
                        536869888, 1073740800, 2147482624, 4294967295]"
  using sym_eval unfolding locals_lit_def
  by (cases "decode_symbol (env_of 1 0 [0] (core_ready\<lparr>buf := 0\<rparr>))
                           (locals_of (core_ready\<lparr>buf := 0\<rparr>))"; auto)+

lemma env_limits: "e_limit (env_of l b i c) = l" "e_bufLimit (env_of l b i c) = b"
  by (simp_all add: env_of_def)

lemma real_eval:
  "case DecodeReal 1 0 [0] (core_ready\<lparr>buf := 0\<rparr>) of
     Inr c \<Rightarrow> pos (m_dic c) = 1 \<and> buf c = 1 \<and> remainLen c = 0 \<and> m_code c = 0 \<and>
        processedPos c = 1 \<and> checkDicSize c = 0 \<and> \<not> needFlush c \<and>
        m_properties c = \<lparr>lc = 0, lp = 0, pb = 0, dicSize = 4096\<rparr> \<and>
        norm_trace c = [2147352576, 4294705152, 33553408, 67107840, 134216704, 268434432,
                        536869888, 1073740800, 2147482624, 4294967295]
   | Inl e \<Rightarrow> False"
  apply (simp only: DecodeReal_def Let_def)
  apply (subst DecodeReal_loop.simps)
  apply (simp add: sym_res locals_lit_fields env_limits NORMALIZE_def lzma_consts
      core_ready_fields run_def)
  done

lemma real_res: "DecodeReal 1 0 [0] (core_ready\<lparr>buf := 0\<rparr>) = Inr core_done"
  using real_eval unfolding core_done_def
  by (cases "DecodeReal 1 0 [0] (core_ready\<lparr>buf := 0\<rparr>)") auto

lemma core_done_fields:
  "pos (m_dic core_done) = 1" "buf core_done = 1" "remainLen core_done = 0"
  "m_code core_done = 0" "processedPos core_done = 1" "checkDicSize core_done = 0"
  "\<not> needFlush core_done"
  "m_properties core_done = \<lparr>lc = 0, lp = 0, pb = 0, dicSize = 4096\<rparr>"
  "norm_trace core_done = [2147352576, 4294705152, 33553408, 67107840, 134216704, 268434432,
                        536869888, 1073740800, 2147482624, 4294967295]"
  using real_eval unfolding core_done_def
  by (cases "DecodeReal 1 0 [0] (core_ready\<lparr>buf := 0\<rparr>)"; auto)+

lemma real2_res: "DecodeReal2 1 0 [0] (core_ready\<lparr>buf := 0\<rparr>) = Inr core_done"
  apply (simp add: DecodeReal2_def)
  apply (subst DecodeReal2_loop.simps)
  apply (simp add: DecodeReal2_body_def Let_def core_ready_fields real_res core_done_fields
      WriteRem_def lzma_consts word_le_nat_alt word_less_nat_alt run_def)
  done

lemma data_res:
  "DecodeToDic_data 1 [0, 0, 0, 0, 0, 0] False 5 1 core_ready = Inr (None, 6, 0, core_done)"
  by (simp add: DecodeToDic_data_def core_ready_fields dummy_res real2_res core_done_fields
      lzma_consts Let_def)

lemma body_res:
  "DecodeToDic_body 1 [0, 0, 0, 0, 0, 0] End 0 6 core_start = Inr (None, 6, 0, core_done)"
proof -
  have rc: "needInitState (InitRc core_filled)"
    "pos (m_dic (InitRc core_filled)) = 0"
    by (simp_all add: InitRc_def core_filled_fields)
  show ?thesis
    by (simp add: DecodeToDic_body_def core_start_fields fill_res core_filled_fields rc
        lzma_consts data_res[unfolded core_ready_def] word_le_nat_alt word_less_nat_alt)
qed

lemma body2_res:
  "DecodeToDic_body 1 [0, 0, 0, 0, 0, 0] End 6 0 core_done =
     Inr (Some MaybeFinishedWithoutMark, 6, 0, core_done)"
  by (simp add: DecodeToDic_body_def core_done_fields word_le_nat_alt word_less_nat_alt)

lemma core_res:
  "DecodeToDic 1 [0, 0, 0, 0, 0, 0] 6 End core_start =
     Inr ((6, MaybeFinishedWithoutMark), core_done)"
  apply (simp add: DecodeToDic_def WriteRem_def core_start_fields)
  apply (subst DecodeToDic_loop.simps)
  apply (simp add: core_start_fields body_res lzma_consts)
  apply (subst DecodeToDic_loop.simps)
  apply (simp add: core_done_fields body2_res lzma_consts run_def)
  done

lemma cmp_eval:
  "case Decoder2_compressed lzma_chunk 6 0 1 6 End header_decoder of
     Inr (ret, sl, d) \<Rightarrow> ret = None \<and> sl = 12 \<and> decoder d = core_done \<and>
        state2 d = LZMA2_STATE_DATA_CONT
   | Inl e \<Rightarrow> False"
  by (simp add: Decoder2_compressed_def header_fields getLzmaMode_def Let_def
      core_res[unfolded core_start_def] lzma_chunk_def core_done_fields
      word_le_nat_alt word_less_nat_alt)

lemma cmp_res:
  "Decoder2_compressed lzma_chunk 6 0 1 6 End header_decoder = Inr (None, 12, chunk_decoder)"
  using cmp_eval unfolding chunk_decoder_def
  by (cases "Decoder2_compressed lzma_chunk 6 0 1 6 End header_decoder") auto

lemma chunk_decoder_fields:
  "decoder chunk_decoder = core_done" "state2 chunk_decoder = LZMA2_STATE_DATA_CONT"
  using cmp_eval unfolding chunk_decoder_def
  by (cases "Decoder2_compressed lzma_chunk 6 0 1 6 End header_decoder"; auto)+

lemma top_res:
  "Decoder2_DecodeToDic 1 lzma_chunk 12 Any one_byte_decoder =
     Inr ((12, NotFinished), chunk_decoder)"
  apply (simp only: Decoder2_DecodeToDic_def header_loop)
  apply (subst Decoder2_loop.simps)
  apply (simp add: Decoder2_body_def header_fields isUncompressedState_def CONTROL_LZMA_def
      Let_def cmp_res word_le_nat_alt word_less_nat_alt)
  apply (subst Decoder2_loop.simps)
  apply (simp add: Decoder2_body_def chunk_decoder_fields core_done_fields run_def)
  done

lemma traced_decoder_trace:
  "norm_trace (decoder traced_decoder) =
     [2147352576, 4294705152, 33553408, 67107840, 134216704, 268434432,
      536869888, 1073740800, 2147482624, 4294967295]"
  by (simp add: traced_decoder_def top_res chunk_decoder_fields core_done_fields)

lemma traced_decoder_reachable: "reachable traced_decoder"
proof -
  obtain d where d: "Decoder2_new 0 zeroDecoder2 = Inr d"
    by (simp add: Decoder2_new_def)
  then have "reachable d" by (rule reachable.constructed)
  from reachable.set_dic[OF this, of "\<lparr>mem = [0], dsize = 1, pos = 0\<rparr>"]
  have "reachable one_byte_decoder" by (simp add: one_byte_decoder_def d)
  from reachable.returned[OF this top_res] have "reachable chunk_decoder" .
  then show ?thesis by (simp add: traced_decoder_def top_res)
qed

text \<open>
  Claim C8. In every decoder that is reachable through the interface of \<^verbatim>\<open>Decoder2\<close>
  (constructed, reset, given a dictionary window, and used in calls of \<^verbatim>\<open>DecodeToDic\<close>
  that return or throw), every normalisation step that symbol decoding has performed
  so far left a range of at least \<open>kTopValue = 2^24\<close>: \<open>norm_trace\<close> is the list of the
  values of \<^verbatim>\<open>range\<close> right after each \<^verbatim>\<open>NORMALIZE\<close> of \<^verbatim>\<open>DecodeReal\<close>, also of those in a call
  that an exception left.
\<close>

theorem range_after_normalize:
  "reachable d \<Longrightarrow> \<forall>r \<in> set (norm_trace (decoder d)). kTopValue \<le> r"
  using reachable_dec_inv[of d] by (simp add: dec_inv_def trace_ok_def)

theorem range_after_normalize_witness:
  "reachable traced_decoder \<and>
   norm_trace (decoder traced_decoder) =
     [2147352576, 4294705152, 33553408, 67107840, 134216704, 268434432,
      536869888, 1073740800, 2147482624, 4294967295] \<and>
   list_all (\<lambda>r. kTopValue \<le> r) (norm_trace (decoder traced_decoder))"
  using range_after_normalize[of traced_decoder] traced_decoder_reachable traced_decoder_trace
  by (simp add: list_all_iff)

section \<open>The validation of match distances\<close>

text \<open>
  \<^verbatim>\<open>DecodeReal\<close> compares a distance with \<^verbatim>\<open>checkDicSize\<close>, not with \<^verbatim>\<open>m_properties.dicSize\<close>.
  The two are equal where \<^verbatim>\<open>checkDicSize\<close> is not 0: this is part of the invariant \<open>core_inv\<close>
  that every function of the decoder keeps, so it holds in every reachable decoder, and in
  the decoder of every call of \<^verbatim>\<open>DecodeReal\<close>, whose invariant is \<open>run_inv\<close>.
\<close>

lemma core_inv_dic:
  "core_inv c \<Longrightarrow> checkDicSize c = 0 \<or> checkDicSize c = dicSize (m_properties c)"
  by (simp add: core_inv_def)

lemma run_inv_dic:
  "run_inv c \<Longrightarrow> checkDicSize c = 0 \<or> checkDicSize c = dicSize (m_properties c)"
  by (simp add: run_inv_def core_inv_def)

lemma reachable_checkDicSize:
  "reachable d \<Longrightarrow>
   checkDicSize (decoder d) = 0 \<or> checkDicSize (decoder d) = dicSize (m_properties (decoder d))"
  using reachable_dec_inv[of d] by (simp add: dec_inv_def)

text \<open>
  Claim C4, amended. In a decoder whose \<open>checkDicSize\<close> is 0 or \<open>dicSize\<close> (every reachable
  decoder, by the lemmas above), take a symbol whose bit at \<open>IsMatch\<close> is 1. If its bit at
  \<open>IsRep\<close> is 0 (a simple match), the distance decoded is not the end marker \<open>0xFFFFFFFF\<close>
  (\<open>decode_dist_value\<close> returns \<open>Some distance\<close>; for the end marker it returns \<open>None\<close>), and
  the distance is at least \<open>processedPos\<close> when \<open>checkDicSize = 0\<close>, or at least \<open>dicSize\<close>
  otherwise, then the symbol raises \<open>BadStream\<close> with the dictionary and its position as
  before the symbol: no byte has been copied. If its bit at \<open>IsRep\<close> is 1 while
  \<open>checkDicSize = 0\<close> and \<open>processedPos = 0\<close>, the symbol raises \<open>BadStream\<close> right after that
  bit.
\<close>

theorem match_distance_validation:
  assumes E: "E = env_of limit bufLimit inp c"
      and inv: "checkDicSize c = 0 \<or> checkDicSize c = dicSize (m_properties c)"
      and st: "l_state L < 12"
      and m: "isBit0 (IsMatch + unat (push_bit kNumPosBitsMax (l_state L)) +
                       unat (l_processedPos L AND e_pbMask E)) inp L = Inr (False, L1)"
      and r: "isBit0 (IsRep + unat (l_state L)) inp
                (UPDATE_1 (IsMatch + unat (push_bit kNumPosBitsMax (l_state L)) +
                           unat (l_processedPos L AND e_pbMask E)) L1) = Inr (b, L2)"
  shows "(b \<longrightarrow> (\<forall>L3 L4 distance.
            decode_len LenCoder (l_processedPos L AND e_pbMask E) inp
              ((UPDATE_0 (IsRep + unat (l_state L)) L2)\<lparr>l_state := l_state L + 12\<rparr>) = Inr L3 \<longrightarrow>
            decode_dist_value E L3 = Inr (Some distance, L4) \<longrightarrow>
            (if checkDicSize c = 0 then distance \<ge> l_processedPos L
             else distance \<ge> dicSize (m_properties c)) \<longrightarrow>
            (\<exists>L'. decode_symbol E L = Inl (BadStream, L') \<and>
                  l_dic L' = l_dic L \<and> l_dicPos L' = l_dicPos L)))
       \<and> (\<not> b \<longrightarrow> checkDicSize c = 0 \<longrightarrow> l_processedPos L = 0 \<longrightarrow>
            decode_symbol E L =
              Inl (BadStream, UPDATE_1 (IsRep + unat (l_state L)) L2))"
proof (intro conjI impI allI)
  let ?prob = "IsMatch + unat (push_bit kNumPosBitsMax (l_state L)) +
               unat (l_processedPos L AND e_pbMask E)"
  have inpE: "e_inp E = inp" and cE: "e_checkDicSize E = checkDicSize c"
    using E by (simp_all add: env_of_def)
  have r1: "rc_rel L (UPDATE_1 ?prob L1)"
    using isBit0_Inr[OF m] by (simp add: rc_rel_def UPDATE_1_def)
  have r2: "rc_rel L L2"
    using r1 isBit0_Inr[OF r] by (rule rc_rel_trans)
  have s1: "l_state (UPDATE_1 ?prob L1) = l_state L" using r1 by (simp add: rc_rel_def)
  {
    fix L3 L4 distance
    assume b: b
      and len: "decode_len LenCoder (l_processedPos L AND e_pbMask E) inp
              ((UPDATE_0 (IsRep + unat (l_state L)) L2)\<lparr>l_state := l_state L + 12\<rparr>) = Inr L3"
      and dv: "decode_dist_value E L3 = Inr (Some distance, L4)"
      and bad: "if checkDicSize c = 0 then distance \<ge> l_processedPos L
                else distance \<ge> dicSize (m_properties c)"
    let ?La = "(UPDATE_0 (IsRep + unat (l_state L)) L2)\<lparr>l_state := l_state L + 12\<rparr>"
    have u0: "UPDATE_0 (IsRep + unat (l_state L)) L2
                \<lparr>l_state := l_state (UPDATE_0 (IsRep + unat (l_state L)) L2) + of_nat kNumStates\<rparr>
              = ?La"
      using r2 by (simp add: rc_rel_def UPDATE_0_def kNumStates_def)
    have d3: "dic_rel L L3" and s3: "l_state L3 = l_state L + 12"
      using decode_len_Inr[OF len] r2 by (auto simp: dic_rel_def rc_rel_def UPDATE_0_def)
    have ge: "of_nat kNumStates \<le> l_state L3"
      using st s3 by (simp add: kNumStates_def word_le_nat_alt word_less_nat_alt unat_word_ariths)
    have d4: "dic_rel L L4"
      using d3 decode_dist_value_Some[OF dv] by (auto simp: dic_rel_def rc_rel_def)
    have bad': "(e_checkDicSize E = 0 \<and> distance \<ge> l_processedPos L4) \<or>
                (e_checkDicSize E \<noteq> 0 \<and> distance \<ge> e_checkDicSize E)"
      using bad inv cE d4 by (auto simp: dic_rel_def split: if_splits)
    let ?L5 = "L4\<lparr>l_rep3 := l_rep2 L4, l_rep2 := l_rep1 L4, l_rep1 := l_rep0 L4,
                   l_rep0 := distance + 1\<rparr>"
    have cd: "check_distance E distance L4 = Inl (BadStream, ?L5)"
      using bad' by (auto simp: check_distance_def Let_def)
    have "decode_symbol E L = Inl (BadStream, ?L5)"
      using m r b s1 len dv cd ge u0 inpE
      by (simp add: decode_symbol_def Let_def match_tail_def decode_distance_def)
    moreover have "l_dic ?L5 = l_dic L \<and> l_dicPos ?L5 = l_dicPos L"
      using d4 by (simp add: dic_rel_def)
    ultimately show "\<exists>L'. decode_symbol E L = Inl (BadStream, L') \<and>
                  l_dic L' = l_dic L \<and> l_dicPos L' = l_dicPos L"
      by blast
  }
  {
    assume nb: "\<not> b" and c0: "checkDicSize c = 0" and p0: "l_processedPos L = 0"
    have "l_processedPos (UPDATE_1 (IsRep + unat (l_state L)) L2) = 0"
      using r2 p0 by (simp add: rc_rel_def UPDATE_1_def)
    then show "decode_symbol E L = Inl (BadStream, UPDATE_1 (IsRep + unat (l_state L)) L2)"
      using m r nb s1 c0 cE inpE
      by (simp add: decode_symbol_def Let_def decode_rep_def)
  }
qed

text \<open>
  Three symbols: a simple match of distance 0 into an empty dictionary; a simple match of
  distance 4100 in a decoder that has filled its dictionary of 4096 bytes
  (\<open>checkDicSize = dicSize = 4096\<close>); and a repeated match into an empty dictionary.
\<close>

theorem match_distance_validation_witness:
  "(\<exists>L'. decode_symbol (env_of 4 0 [0, 0, 0, 0] sample_core) (first_locals 0x80000000)
           = Inl (BadStream, L') \<and> l_dic L' = [0, 0, 0, 0] \<and> l_dicPos L' = 0)
   \<and> (\<exists>L'. decode_symbol
             (env_of 4 0 [0, 0, 0, 0] (sample_core\<lparr>processedPos := 4096, checkDicSize := 4096\<rparr>))
             ((first_locals 0x81800000)\<lparr>l_processedPos := 4096\<rparr>)
           = Inl (BadStream, L') \<and> l_dic L' = [0, 0, 0, 0] \<and> l_dicPos L' = 0)
   \<and> isl (decode_symbol (env_of 4 0 [0, 0, 0, 0] sample_core) (first_locals 0xC0000000))
   \<and> fst (projl (decode_symbol (env_of 4 0 [0, 0, 0, 0] sample_core) (first_locals 0xC0000000)))
       = BadStream"
proof -
  let ?inp = "[0, 0, 0, 0] :: u8 list"
  let ?La = "first_locals 0x80000000"
  let ?L1 = "snd (projr (isBit0 0 ?inp ?La))"
  let ?L2 = "snd (projr (isBit0 192 ?inp (UPDATE_1 0 ?L1)))"
  let ?L3 = "projr (decode_len LenCoder 0 ?inp ((UPDATE_0 192 ?L2)\<lparr>l_state := 12\<rparr>))"
  let ?L4 = "snd (projr (decode_dist_value (env_of 4 0 ?inp sample_core) ?L3))"
  let ?Lb = "first_locals 0xC0000000"
  let ?M1 = "snd (projr (isBit0 0 ?inp ?Lb))"
  let ?M2 = "snd (projr (isBit0 192 ?inp (UPDATE_1 0 ?M1)))"
  let ?c = "sample_core\<lparr>processedPos := 4096, checkDicSize := 4096\<rparr>"
  let ?Lc = "(first_locals 0x81800000)\<lparr>l_processedPos := 4096\<rparr>"
  let ?N1 = "snd (projr (isBit0 0 ?inp ?Lc))"
  let ?N2 = "snd (projr (isBit0 192 ?inp (UPDATE_1 0 ?N1)))"
  let ?N3 = "projr (decode_len LenCoder 0 ?inp ((UPDATE_0 192 ?N2)\<lparr>l_state := 12\<rparr>))"
  let ?N4 = "snd (projr (decode_dist_value (env_of 4 0 ?inp ?c) ?N3))"
  note A = match_distance_validation[OF refl, of sample_core ?La 4 0 ?inp ?L1 True ?L2,
             THEN conjunct1, rule_format, of ?L3 0 ?L4]
  note B = match_distance_validation[OF refl, of sample_core ?Lb 4 0 ?inp ?M1 False ?M2,
             THEN conjunct2]
  note C = match_distance_validation[OF refl, of ?c ?Lc 4 0 ?inp ?N1 True ?N2,
             THEN conjunct1, rule_format, of ?N3 4100 ?N4]
  have a: "\<exists>L'. decode_symbol (env_of 4 0 [0, 0, 0, 0] sample_core) (first_locals 0x80000000)
           = Inl (BadStream, L') \<and> l_dic L' = [0, 0, 0, 0] \<and> l_dicPos L' = 0"
    using A
    by (simp add: eval_defs sample_core_def zeroCore_def first_locals_def sample_locals_def)
  have b: "isl (decode_symbol (env_of 4 0 [0, 0, 0, 0] sample_core) (first_locals 0xC0000000))
   \<and> fst (projl (decode_symbol (env_of 4 0 [0, 0, 0, 0] sample_core) (first_locals 0xC0000000)))
       = BadStream"
    using B
    by (simp add: eval_defs sample_core_def zeroCore_def first_locals_def sample_locals_def)
  have c: "\<exists>L'. decode_symbol (env_of 4 0 [0, 0, 0, 0] ?c) ?Lc
           = Inl (BadStream, L') \<and> l_dic L' = [0, 0, 0, 0] \<and> l_dicPos L' = 0"
    using C
    by (simp add: eval_defs sample_core_def zeroCore_def first_locals_def sample_locals_def
        direct_bits_loop.simps)
  from a b c show ?thesis by blast
qed

lemma sum_case_InrE:
  assumes "case m of Inl e \<Rightarrow> False | Inr a \<Rightarrow> P a"
  obtains a where "m = Inr a" "P a"
  using assms by (cases m) simp_all

lemma sum_case_Inr_pairE:
  assumes "case m of Inl e \<Rightarrow> False | Inr (a, b) \<Rightarrow> P a b"
  obtains a b where "m = Inr (a, b)" "P a b"
  using assms by (cases m) auto

text \<open>
  The claim as it stands fails at the end marker. With nothing decoded yet
  (\<open>checkDicSize = 0\<close>, \<open>processedPos = 0\<close>), the symbol below has the bit 1 at \<open>IsMatch\<close> and
  the bit 0 at \<open>IsRep\<close>, so it is a simple match; its distance is \<open>0xFFFFFFFF\<close>
  (\<open>decode_dist_value\<close> returns \<open>None\<close>), which is at least \<open>processedPos\<close>; and \<open>DecodeReal\<close>
  raises no error: it leaves its loop with \<open>len = 271 + kMatchSpecLenStart = 545\<close> and the
  dictionary untouched.
\<close>

theorem end_marker_not_rejected:
  "checkDicSize sample_core = 0 \<and> l_processedPos (first_locals 0xBFFFFBFF) = 0 \<and>
   (\<exists>L1 L2 L3 L4 L'.
      isBit0 0 (replicate 5 0xFF) (first_locals 0xBFFFFBFF) = Inr (False, L1) \<and>
      isBit0 192 (replicate 5 0xFF) (UPDATE_1 0 L1) = Inr (True, L2) \<and>
      decode_len LenCoder 0 (replicate 5 0xFF) ((UPDATE_0 192 L2)\<lparr>l_state := 12\<rparr>) = Inr L3 \<and>
      decode_dist_value (env_of 4 0 (replicate 5 0xFF) sample_core) L3 = Inr (None, L4) \<and>
      decode_symbol (env_of 4 0 (replicate 5 0xFF) sample_core) (first_locals 0xBFFFFBFF)
        = Inr (True, L') \<and>
      l_dic L' = [0, 0, 0, 0] \<and> l_dicPos L' = 0 \<and> l_len L' = 545)"
proof -
  define inp :: "u8 list" where "inp = replicate 5 0xFF"
  define E where "E = env_of 4 0 inp sample_core"
  define L where "L = first_locals 0xBFFFFBFF"
  define L1 where "L1 = snd (projr (isBit0 0 inp L))"
  define L2 where "L2 = snd (projr (isBit0 192 inp (UPDATE_1 0 L1)))"
  note ev = eval_defs first_locals_def sample_locals_def
  have inp5: "inp = [0xFF, 0xFF, 0xFF, 0xFF, 0xFF]" by (simp add: inp_def numeral_eq_Suc)
  have len5: "length inp = 5" by (simp add: inp_def)
  have a: "isBit0 0 inp L = Inr (False, L1)"
    by (simp add: L1_def L_def inp5 ev)
  have b: "isBit0 192 inp (UPDATE_1 0 L1) = Inr (True, L2)"
    by (simp add: L2_def L1_def L_def inp5 ev)
  have "case decode_len LenCoder 0 inp ((UPDATE_0 192 L2)\<lparr>l_state := 12\<rparr>) of
       Inl e \<Rightarrow> False
     | Inr M \<Rightarrow> l_range M = 268435456 \<and> l_code M = 268435455 \<and> l_buf M = 1 \<and>
         l_state M = 12 \<and> l_len M = 271 \<and> l_dic M = [0, 0, 0, 0] \<and> l_dicPos M = 0 \<and>
         l_processedPos M = 0 \<and>
         (\<forall>i. 624 \<le> i \<and> i < 818 \<longrightarrow> l_probs M i = 1024)"
    by (simp add: L2_def L1_def L_def inp5 ev)
  then obtain L3 where c: "decode_len LenCoder 0 inp ((UPDATE_0 192 L2)\<lparr>l_state := 12\<rparr>) = Inr L3"
    and c2: "l_range L3 = 268435456 \<and> l_code L3 = 268435455 \<and> l_buf L3 = 1 \<and>
         l_state L3 = 12 \<and> l_len L3 = 271 \<and> l_dic L3 = [0, 0, 0, 0] \<and> l_dicPos L3 = 0 \<and>
         l_processedPos L3 = 0 \<and>
         (\<forall>i. 624 \<le> i \<and> i < 818 \<longrightarrow> l_probs L3 i = 1024)"
    by (rule sum_case_InrE)
  have "case TREE_6_DECODE 624 inp L3 of
       Inl e \<Rightarrow> False
     | Inr (v, M) \<Rightarrow> v = 63 \<and> l_range M = 1073741824 \<and> l_code M = 1073741823 \<and>
         l_buf M = 2 \<and> l_state M = 12 \<and> l_len M = 271 \<and>
         l_dic M = [0, 0, 0, 0] \<and> l_dicPos M = 0 \<and> l_processedPos M = 0 \<and>
         (\<forall>i. 802 \<le> i \<and> i < 818 \<longrightarrow> l_probs M i = 1024)"
    using c2 by (simp add: inp5 eval_defs)
  then obtain v4 L4 where d1: "TREE_6_DECODE 624 inp L3 = Inr (v4, L4)"
    and d12: "v4 = 63 \<and> l_range L4 = 1073741824 \<and> l_code L4 = 1073741823 \<and>
         l_buf L4 = 2 \<and> l_state L4 = 12 \<and> l_len L4 = 271 \<and>
         l_dic L4 = [0, 0, 0, 0] \<and> l_dicPos L4 = 0 \<and> l_processedPos L4 = 0 \<and>
         (\<forall>i. 802 \<le> i \<and> i < 818 \<longrightarrow> l_probs L4 i = 1024)"
    by (rule sum_case_Inr_pairE)
  have "case direct_bits_loop 26 3 inp L4 of
       Inl e \<Rightarrow> False
     | Inr (v, M) \<Rightarrow> v = 268435455 \<and> l_range M = 268435456 \<and> l_code M = 268435455 \<and>
         l_buf M = 5 \<and> l_state M = 12 \<and> l_len M = 271 \<and>
         l_dic M = [0, 0, 0, 0] \<and> l_dicPos M = 0 \<and> l_processedPos M = 0 \<and>
         (\<forall>i. 802 \<le> i \<and> i < 818 \<longrightarrow> l_probs M i = 1024)"
    using d12 by (simp add: inp5 eval_defs direct_bits_loop.simps)
  then obtain v5 L5 where d2: "direct_bits_loop 26 3 inp L4 = Inr (v5, L5)"
    and d22: "v5 = 268435455 \<and> l_range L5 = 268435456 \<and> l_code L5 = 268435455 \<and>
         l_buf L5 = 5 \<and> l_state L5 = 12 \<and> l_len L5 = 271 \<and>
         l_dic L5 = [0, 0, 0, 0] \<and> l_dicPos L5 = 0 \<and> l_processedPos L5 = 0 \<and>
         (\<forall>i. 802 \<le> i \<and> i < 818 \<longrightarrow> l_probs L5 i = 1024)"
    by (rule sum_case_Inr_pairE)
  have "case decode_dist_value E L3 of
       Inl e \<Rightarrow> False
     | Inr (v, M) \<Rightarrow> v = None \<and> l_dic M = [0, 0, 0, 0] \<and> l_dicPos M = 0 \<and>
         l_len M = 545 \<and> l_state M = 0"
    using c2 d12 d22
    by (simp add: decode_dist_value_def E_def env_of_def lzma_consts Let_def d1 d2
        GET_BIT2_def isBit0_def NORMALIZE_def UPDATE_0_def UPDATE_1_def len5)
  then obtain v6 L6 where dv0: "decode_dist_value E L3 = Inr (v6, L6)"
    and f6: "v6 = None \<and> l_dic L6 = [0, 0, 0, 0] \<and> l_dicPos L6 = 0 \<and>
         l_len L6 = 545 \<and> l_state L6 = 0"
    by (rule sum_case_Inr_pairE)
  have dv: "decode_dist_value E L3 = Inr (None, L6)" using dv0 f6 by simp
  have s: "l_state L = 0" "l_processedPos L = 0" "l_state L1 = 0" "l_state L2 = 0"
    "e_inp E = inp" "e_pbMask E = 0"
    by (simp_all add: L2_def L1_def L_def E_def ev sample_core_def zeroCore_def len5)
  have u: "\<And>x M. l_state (UPDATE_0 x M) = l_state M" "\<And>x M. l_state (UPDATE_1 x M) = l_state M"
    by (simp_all add: UPDATE_0_def UPDATE_1_def)
  have sym: "decode_symbol E L = Inr (True, L6)"
    using a b c c2 dv s u
    by (simp add: decode_symbol_def Let_def match_tail_def decode_distance_def lzma_consts)
  have z: "checkDicSize sample_core = 0"
    by (simp add: sample_core_def zeroCore_def)
  from a b c dv sym f6 z s(2) show ?thesis
    unfolding E_def L_def inp_def by blast
qed

end
